theory Spec2Isabelle
  imports Complex_Main "HOL-Library.Multiset" "HOL-Library.List_Lexorder" "HOL-Library.Log_Nat"
begin

section \<open>Errors and arrays\<close>

text \<open>
  The exceptions of the Python source that the model keeps as values. A computation that
  may raise returns \<open>error + 'a\<close>, with \<open>Inl\<close> for the exception.
\<close>

datatype error =
    AttributeError string
  | IndexError
  | KeyError
  | ValueError
  | LinAlgError
  | OverflowError

text \<open>
  A two-dimensional index array is the list of its rows. A simplex is one row: the list of
  its vertex indices, in the order the array holds them.
\<close>

type_synonym simplex = "nat list"

section \<open>grid\_utils: stitching\<close>

text \<open>
  \<open>_stitch(index, stitches)\<close> follows the identification map until it reaches an index that
  is not a key. The loop does not end on a cyclic map, so not returning is the value \<open>None\<close>.
\<close>

partial_function (option) stitch' :: "(nat \<rightharpoonup> nat) \<Rightarrow> nat \<Rightarrow> nat option" where
  "stitch' stitches index =
     (case stitches index of
        None \<Rightarrow> Some index
      | Some index' \<Rightarrow> stitch' stitches index')"

declare stitch'.simps [code]

definition stitch :: "simplex \<Rightarrow> (nat \<rightharpoonup> nat) \<Rightarrow> simplex option" where
  "stitch simplex stitches = those (map (stitch' stitches) simplex)"

section \<open>Sparse matrices\<close>

text \<open>
  \<open>scipy.sparse.csr_matrix\<close> in its storage form: row \<open>r\<close> owns the positions
  \<open>indptr[r] ..< indptr[r+1]\<close> of \<open>data\<close> and \<open>indices\<close>. An entry of the matrix is
  the sum of the stored values of its row that carry its column index (scipy adds
  duplicates).
\<close>

record csr_matrix =
  data :: "int list"
  indices :: "nat list"
  indptr :: "nat list"
  shape :: "nat \<times> nat"

definition csr_get :: "csr_matrix \<Rightarrow> nat \<Rightarrow> nat \<Rightarrow> int" where
  "csr_get M r c =
     (\<Sum>p\<leftarrow>[indptr M ! r ..< indptr M ! (r + 1)]. if indices M ! p = c then data M ! p else 0)"

text \<open>\<open>csr_matrix((rows, cols))\<close>: the empty (all zero) matrix of that shape.\<close>

definition csr_zeros :: "nat \<Rightarrow> nat \<Rightarrow> csr_matrix" where
  "csr_zeros rows cols =
     \<lparr>data = [], indices = [], indptr = replicate (rows + 1) 0, shape = (rows, cols)\<rparr>"

text \<open>\<open>A.dot(B)\<close>, entry by entry.\<close>

definition csr_dot_entry :: "csr_matrix \<Rightarrow> csr_matrix \<Rightarrow> nat \<Rightarrow> nat \<Rightarrow> int" where
  "csr_dot_entry A B r c = (\<Sum>k\<leftarrow>[0..<snd (shape A)]. csr_get A r k * csr_get B k c)"

section \<open>Skeleta and the complex\<close>

record skeleton =
  dim :: int
  simplices :: "simplex list"
  simplex_to_index :: "nat set \<rightharpoonup> nat"
  num_simplices :: nat
  exterior_derivative :: csr_matrix

text \<open>
  The top skeleton is filled by the constructor, which also sets the fields that the lower
  skeleta compute on first access.
\<close>

record top_skeleton = skeleton +
  boundary :: "nat list"
  interior :: "nat list"
  unstitched :: "simplex list"
  points :: "complex list list list"

record simplicial_complex =
  complex_dimension :: int
  vertices :: "complex list list"
  stitches :: "nat \<rightharpoonup> nat"
  top_sk :: top_skeleton

text \<open>
  The constructor's \<open>simplices\<close> argument is a two-dimensional numpy array: its rows, and
  \<open>shape[1]\<close>, which an array without rows still has.
\<close>

record index_array =
  rows :: "simplex list"
  columns :: nat

text \<open>
  \<open>simplices.sort()\<close> on a two-dimensional numpy array sorts in place along the last
  axis: every row is sorted on its own, and the rows stay where they are.
\<close>

definition ndarray_sort :: "index_array \<Rightarrow> index_array" where
  "ndarray_sort arr = arr\<lparr>rows := map sort (rows arr)\<rparr>"

text \<open>
  \<open>dict([(frozenset(stitch(simplex, stitches)), index) for index, simplex in
  enumerate(skeleton.simplices)])\<close>: a later pair overwrites an earlier one with the same key.
\<close>

definition dict_of_pairs :: "('k \<times> 'v) list \<Rightarrow> ('k \<rightharpoonup> 'v)" where
  "dict_of_pairs ps = foldl (\<lambda>m (k, v). m(k \<mapsto> v)) Map.empty ps"

text \<open>
  \<open>SimplicialComplex.__init__\<close>. \<open>None\<close>: a stitch never returns. \<open>Inl IndexError\<close>:
  \<open>vertices[simplices]\<close> reads a vertex that is not there. The skeleta below the top one are
  created empty; their fields are the functions of the later sections.
\<close>

definition SimplicialComplex_init ::
  "index_array \<Rightarrow> complex list list \<Rightarrow> (nat \<rightharpoonup> nat) \<Rightarrow> (error + simplicial_complex) option" where
  "SimplicialComplex_init simplices0 verts stitches0 =
     (let simplices1 = rows (ndarray_sort simplices0);
          cdim = int (columns simplices0) - 1
      in case those (map (\<lambda>s. stitch s stitches0) simplices1) of
           None \<Rightarrow> None
         | Some stitched \<Rightarrow>
            (case those (map (\<lambda>s. stitch s stitches0) stitched) of
               None \<Rightarrow> None
             | Some keys \<Rightarrow>
                Some (if \<exists>s \<in> set simplices1. \<exists>v \<in> set s. length verts \<le> v
                      then Inl IndexError
                      else Inr \<lparr>complex_dimension = cdim,
                                vertices = verts,
                                stitches = stitches0,
                                top_sk = \<lparr>dim = cdim,
                                       simplices = stitched,
                                       simplex_to_index =
                                         dict_of_pairs (zip (map set keys) [0..<length keys]),
                                       num_simplices = length simplices1,
                                       exterior_derivative = csr_zeros 1 (length simplices1),
                                       boundary = [],
                                       interior = [0..<length simplices1],
                                       unstitched = simplices1,
                                       points = map (map (\<lambda>v. verts ! v)) simplices1\<rparr>\<rparr>)))"

section \<open>Attribute dispatch\<close>

text \<open>
  Python calls \<open>__getattr__\<close> for a name that normal lookup does not find. The two
  \<open>__getattr__\<close> methods compare the name with the names they compute; the model returns the
  branch that is taken, or the exception of the last branch.
\<close>

datatype skeleton_field =
    Sharp | Boundary | Interior | Exterior | Unstitched | Points | Metrics
  | Primal_volumes | Circumcenters | Dual_volumes | Star | Inverse_star
  | Codifferential | Laplace_beltrami | Laplace_derham

definition Skeleton_getattr :: "string \<Rightarrow> error + skeleton_field" where
  "Skeleton_getattr attr =
     (if attr = ''sharp'' then Inr Sharp
      else if attr = ''boundary'' then Inr Boundary
      else if attr = ''interior'' then Inr Interior
      else if attr \<in> set [''exterior_derivative'', ''simplices'', ''simplex_to_index'',
                           ''num_simplices''] then Inr Exterior
      else if attr = ''unstitched'' then Inr Unstitched
      else if attr = ''points'' then Inr Points
      else if attr = ''metrics'' then Inr Metrics
      else if attr = ''primal_volumes'' then Inr Primal_volumes
      else if attr = ''circumcenters'' then Inr Circumcenters
      else if attr = ''dual_volumes'' then Inr Dual_volumes
      else if attr = ''star'' then Inr Star
      else if attr = ''inverse_star'' then Inr Inverse_star
      else if attr = ''codifferential'' then Inr Codifferential
      else if attr = ''laplace_beltrami'' then Inr Laplace_beltrami
      else if attr = ''laplace_derham'' then Inr Laplace_derham
      else Inl (AttributeError (attr @ '' not found'')))"

datatype complex_field = Barycentric_gradients

definition SimplicialComplex_getattr :: "string \<Rightarrow> error + complex_field" where
  "SimplicialComplex_getattr attr =
     (if attr = ''barycentric_gradients'' then Inr Barycentric_gradients
      else Inl (AttributeError (attr @ '' not found'')))"

text \<open>The names each \<open>__getattr__\<close> computes.\<close>

definition skeleton_lazy_fields :: "string list" where
  "skeleton_lazy_fields =
     [''sharp'', ''boundary'', ''interior'', ''exterior_derivative'', ''simplices'',
      ''simplex_to_index'', ''num_simplices'', ''unstitched'', ''points'', ''metrics'',
      ''primal_volumes'', ''circumcenters'', ''dual_volumes'', ''star'', ''inverse_star'',
      ''codifferential'', ''laplace_beltrami'', ''laplace_derham'']"

definition complex_lazy_fields :: "string list" where
  "complex_lazy_fields = [''barycentric_gradients'']"

section \<open>Face enumeration and the exterior derivative\<close>

text \<open>
  The local variables of \<open>_Skeleton.compute_exterior\<close> that the two loops update.
\<close>

record exterior_state =
  loc_indices :: "nat list"
  loc_indptr :: "nat list"
  loc_data :: "int list"
  loc_simplices :: "simplex list"
  loc_simplex_to_index :: "nat set \<rightharpoonup> nat"
  loc_num_simplices :: nat

text \<open>\<open>simplex[:j] + simplex[j + 1:]\<close>\<close>

definition delete_vertex :: "simplex \<Rightarrow> nat \<Rightarrow> simplex" where
  "delete_vertex simplex j = take j simplex @ drop (j + 1) simplex"

text \<open>The body of the inner loop, for one position \<open>j\<close> of one simplex.\<close>

definition exterior_step :: "simplex \<Rightarrow> exterior_state \<Rightarrow> nat \<Rightarrow> exterior_state" where
  "exterior_step simplex st j =
     (let face = delete_vertex simplex j;
          sface = set face;
          st1 = (case loc_simplex_to_index st sface of
                   Some i \<Rightarrow> st\<lparr>loc_indices := loc_indices st @ [i]\<rparr>
                 | None \<Rightarrow>
                     st\<lparr>loc_simplex_to_index :=
                          (loc_simplex_to_index st)(sface \<mapsto> loc_num_simplices st),
                        loc_indices := loc_indices st @ [loc_num_simplices st],
                        loc_simplices := loc_simplices st @ [face],
                        loc_num_simplices := loc_num_simplices st + 1\<rparr>)
      in st1\<lparr>loc_data := loc_data st1 @ [(- 1) ^ j]\<rparr>)"

text \<open>The body of the outer loop, for row \<open>col\<close>.\<close>

definition exterior_row :: "nat \<Rightarrow> exterior_state \<Rightarrow> nat \<times> simplex \<Rightarrow> exterior_state" where
  "exterior_row j_max st cs =
     (case cs of (col, simplex) \<Rightarrow>
        (let st1 = foldl (exterior_step simplex) st [0..<j_max]
         in st1\<lparr>loc_indptr := loc_indptr st1 @ [(col + 1) * j_max]\<rparr>))"

definition exterior_init :: exterior_state where
  "exterior_init =
     \<lparr>loc_indices = [], loc_indptr = [0], loc_data = [], loc_simplices = [],
      loc_simplex_to_index = Map.empty, loc_num_simplices = 0\<rparr>"

text \<open>
  \<open>compute_exterior\<close> of the skeleton of dimension \<open>d\<close>, from the simplices of the skeleton
  one dimension higher. The typed buffer \<open>old_simplices\<close> has two dimensions; the array made
  of an empty list has one, and the assignment raises. \<open>j_max\<close> is an \<open>unsigned char\<close>:
  the row length is cut to eight bits.
\<close>

definition compute_exterior :: "int \<Rightarrow> simplex list \<Rightarrow> error + skeleton" where
  "compute_exterior d old_simplices =
     (if old_simplices = [] then Inl ValueError
      else
        let col_max = length old_simplices;
            j_max = length (hd old_simplices) mod 256;
            st = foldl (exterior_row j_max) exterior_init
                   (zip [0..<col_max] old_simplices)
        in Inr \<lparr>dim = d,
                 simplices = loc_simplices st,
                 simplex_to_index = loc_simplex_to_index st,
                 num_simplices = loc_num_simplices st,
                 exterior_derivative =
                   \<lparr>data = loc_data st, indices = loc_indices st, indptr = loc_indptr st,
                    shape = (length old_simplices, length (loc_simplices st))\<rparr>\<rparr>)"

text \<open>
  The skeleton \<open>n\<close> dimensions below a given one: each level reads
  \<open>self.complex[self.dim + 1].simplices\<close>, which computes the level above on first access.
\<close>

fun skeleton_below :: "skeleton \<Rightarrow> nat \<Rightarrow> error + skeleton" where
  "skeleton_below sk 0 = Inr sk"
| "skeleton_below sk (Suc n) =
     (case skeleton_below sk n of
        Inl e \<Rightarrow> Inl e
      | Inr hi \<Rightarrow> compute_exterior (dim hi - 1) (simplices hi))"

text \<open>
  \<open>complex[d]\<close>: the complex is the list of its skeleta, those of dimension
  \<open>0 ..< complex_dimension\<close> and then the top one.
\<close>

definition getitem :: "simplicial_complex \<Rightarrow> nat \<Rightarrow> error + skeleton" where
  "getitem cx d =
     (let n = nat (complex_dimension cx)
      in if n < d then Inl IndexError
         else skeleton_below (skeleton.truncate (top_sk cx)) (n - d))"

section \<open>Boundary and interior\<close>

text \<open>
  \<open>abs(M[sel]).sum(axis=0).getA1()\<close>: for every column, the sum of the absolute values of
  its entries in the selected rows. Sums are taken in the integers.
\<close>

definition abs_column_sums :: "csr_matrix \<Rightarrow> nat list \<Rightarrow> int list" where
  "abs_column_sums M sel = map (\<lambda>c. \<Sum>r\<leftarrow>sel. \<bar>csr_get M r c\<bar>) [0..<snd (shape M)]"

text \<open>\<open>v.nonzero()[0]\<close> for a vector of truth values.\<close>

definition nonzero :: "bool list \<Rightarrow> nat list" where
  "nonzero v = filter (\<lambda>i. v ! i) [0..<length v]"

text \<open>
  The \<open>boundary\<close> attribute of the skeleton \<open>n\<close> dimensions below the top one. The top
  skeleton holds the value the constructor has set.
\<close>

fun boundary_below :: "simplicial_complex \<Rightarrow> nat \<Rightarrow> error + nat list" where
  "boundary_below cx 0 = Inr (boundary (top_sk cx))"
| "boundary_below cx (Suc 0) =
     (case skeleton_below (skeleton.truncate (top_sk cx)) (Suc 0) of
        Inl e \<Rightarrow> Inl e
      | Inr sk \<Rightarrow>
          Inr (nonzero (map (\<lambda>x. x mod 2 = 1)
                 (abs_column_sums (exterior_derivative sk)
                    [0..<fst (shape (exterior_derivative sk))]))))"
| "boundary_below cx (Suc (Suc n)) =
     (case boundary_below cx (Suc n) of
        Inl e \<Rightarrow> Inl e
      | Inr old_boundary \<Rightarrow>
          if old_boundary \<noteq> [] then
            (case skeleton_below (skeleton.truncate (top_sk cx)) (Suc (Suc n)) of
               Inl e \<Rightarrow> Inl e
             | Inr sk \<Rightarrow>
                 Inr (nonzero (map (\<lambda>x. x \<noteq> 0)
                        (abs_column_sums (exterior_derivative sk) old_boundary))))
          else Inr [])"

text \<open>
  The \<open>interior\<close> attribute:
  \<open>sorted(set(arange(self.num_simplices)) - set(self.boundary))\<close>.
\<close>

definition interior_below :: "simplicial_complex \<Rightarrow> nat \<Rightarrow> error + nat list" where
  "interior_below cx n =
     (if n = 0 then Inr (interior (top_sk cx))
      else case skeleton_below (skeleton.truncate (top_sk cx)) n of
             Inl e \<Rightarrow> Inl e
           | Inr sk \<Rightarrow>
              (case boundary_below cx n of
                 Inl e \<Rightarrow> Inl e
               | Inr b \<Rightarrow>
                   Inr (sorted_list_of_set (set [0..<num_simplices sk] - set b))))"

text \<open>The two attributes of \<open>complex[d]\<close>.\<close>

definition Skeleton_boundary :: "simplicial_complex \<Rightarrow> nat \<Rightarrow> error + nat list" where
  "Skeleton_boundary cx d =
     (let n = nat (complex_dimension cx)
      in if n < d then Inl IndexError else boundary_below cx (n - d))"

definition Skeleton_interior :: "simplicial_complex \<Rightarrow> nat \<Rightarrow> error + nat list" where
  "Skeleton_interior cx d =
     (let n = nat (complex_dimension cx)
      in if n < d then Inl IndexError else interior_below cx (n - d))"

section \<open>Auxiliary notions for the proofs\<close>

text \<open>
  The faces in the order in which the two loops of \<open>compute_exterior\<close> visit them: row by
  row, and within a row by the deleted position.
\<close>

definition all_faces :: "nat \<Rightarrow> simplex list \<Rightarrow> simplex list" where
  "all_faces m old = concat (map (\<lambda>s. map (delete_vertex s) [0..<m]) old)"

text \<open>
  The loop invariant of \<open>compute_exterior\<close>, for the list \<open>P\<close> of the faces visited so far:
  the dictionary maps a vertex set to the position of the one stored face with that vertex
  set, every visited face has been given the index of its vertex set, and a face seen for
  the first time has been stored under the number of vertex sets seen before it.
\<close>

definition dedup_inv :: "simplex list \<Rightarrow> exterior_state \<Rightarrow> bool" where
  "dedup_inv P st \<longleftrightarrow>
     loc_num_simplices st = length (loc_simplices st)
   \<and> length (loc_indices st) = length P
   \<and> distinct (map set (loc_simplices st))
   \<and> set (loc_simplices st) \<subseteq> set P
   \<and> set ` set P \<subseteq> set ` set (loc_simplices st)
   \<and> (\<forall>k i. loc_simplex_to_index st k = Some i \<longleftrightarrow>
              i < length (loc_simplices st) \<and> set (loc_simplices st ! i) = k)
   \<and> (\<forall>p<length P. loc_simplex_to_index st (set (P ! p)) = Some (loc_indices st ! p))
   \<and> (\<forall>p<length P. (\<forall>q<p. set (P ! q) \<noteq> set (P ! p)) \<longrightarrow>
          loc_indices st ! p = card (set ` set (take p P))
        \<and> loc_simplices st ! (loc_indices st ! p) = P ! p)"

text \<open>
  The fields \<open>compute_exterior\<close> assigns, read back as the final state of its loops, and
  the row length as the loops use it.
\<close>

definition state_of :: "skeleton \<Rightarrow> exterior_state" where
  "state_of sk =
     \<lparr>loc_indices = indices (exterior_derivative sk),
      loc_indptr = indptr (exterior_derivative sk),
      loc_data = data (exterior_derivative sk),
      loc_simplices = simplices sk,
      loc_simplex_to_index = simplex_to_index sk,
      loc_num_simplices = num_simplices sk\<rparr>"

definition width :: "simplex list \<Rightarrow> nat" where
  "width old = length (hd old) mod 256"

text \<open>
  The order of rows the specification describes for the constructor: the rows in
  lexicographic order, every row as it was.
\<close>

definition lexicographic_row_sort :: "simplex list \<Rightarrow> simplex list" where
  "lexicographic_row_sort arr = sort arr"

text \<open>
  Every face of the simplices keeps one vertex order: two faces with the same vertices are
  the same tuple.
\<close>

definition one_vertex_order :: "simplex list \<Rightarrow> bool" where
  "one_vertex_order old \<longleftrightarrow>
     list_all (\<lambda>f. list_all (\<lambda>g. set f = set g \<longrightarrow> f = g) (all_faces (width old) old))
       (all_faces (width old) old)"

text \<open>
  \<open>f\<close> is a face of \<open>s\<close>: deleting one position of \<open>s\<close> leaves the vertex set of \<open>f\<close>.
\<close>

definition face_of :: "simplex \<Rightarrow> simplex \<Rightarrow> bool" where
  "face_of f s \<longleftrightarrow> (\<exists>j\<in>{..<length s}. set (delete_vertex s j) = set f)"

section \<open>Dual cells\<close>

text \<open>
  A skeleton as \<open>compute_dual_cells\<close> reads it: with the \<open>circumcenters\<close> dictionary, keyed
  by unstitched simplex, that the circumcenter solver has filled.
\<close>

record 'p geometric_skeleton = skeleton +
  circumcenters :: "simplex \<rightharpoonup> 'p"

type_synonym 'p dual_cells = "('p list \<times> nat) list"

text \<open>
  The loop over the faces of \<open>compute_dual_cells\<close>, given the results of the recursive
  calls in order: the first call that does not return, or raises, ends the loop; otherwise
  every returned chain is extended by \<open>circumcenter\<close> with
  \<open>old_circumcenters + circumcenter\<close>.
\<close>

fun dual_collect :: "'p list \<Rightarrow> (error + 'p dual_cells) option list \<Rightarrow> (error + 'p dual_cells) option" where
  "dual_collect circumcenter [] = Some (Inr [])"
| "dual_collect circumcenter (r # rs) =
     (case r of
        None \<Rightarrow> None
      | Some (Inl e) \<Rightarrow> Some (Inl e)
      | Some (Inr cells) \<Rightarrow>
         (case dual_collect circumcenter rs of
            None \<Rightarrow> None
          | Some (Inl e) \<Rightarrow> Some (Inl e)
          | Some (Inr new_circumcenters) \<Rightarrow>
              Some (Inr (map (\<lambda>(old_circumcenters, index). (old_circumcenters @ circumcenter, index))
                           cells @ new_circumcenters))))"

text \<open>
  \<open>_SimplicialComplex.compute_dual_cells\<close>. \<open>self\<close> is the list of the skeleta. \<open>p\<close>,
  \<open>k1\<close> and \<open>k\<close> are \<open>unsigned char\<close>: \<open>p\<close> is converted from a Python integer, which
  raises beyond 255; \<open>k1 = len(simplex)\<close> and \<open>k = k1 - 1\<close> are cut to eight bits.
  \<open>None\<close>: a stitch never returns.
\<close>

function compute_dual_cells ::
  "'p geometric_skeleton list \<Rightarrow> (nat \<rightharpoonup> nat) \<Rightarrow> simplex \<Rightarrow> nat \<Rightarrow> (error + 'p dual_cells) option" where
  "compute_dual_cells self stitches0 simplex p =
     (if 256 \<le> p then Some (Inl OverflowError)
      else if length self \<le> (length simplex mod 256 + 255) mod 256 then Some (Inl IndexError)
      else
        case circumcenters (self ! ((length simplex mod 256 + 255) mod 256)) simplex of
          None \<Rightarrow> Some (Inl KeyError)
        | Some c \<Rightarrow>
            if p = (length simplex mod 256 + 255) mod 256 then
              (case stitch simplex stitches0 of
                 None \<Rightarrow> None
               | Some key \<Rightarrow>
                  (case simplex_to_index (self ! p) (set key) of
                     None \<Rightarrow> Some (Inl KeyError)
                   | Some index \<Rightarrow> Some (Inr [([c], index)])))
            else
              dual_collect [c]
                (map (\<lambda>i. compute_dual_cells self stitches0 (delete_vertex simplex i) p)
                   [0..<length simplex mod 256]))"
  by pat_completeness auto
termination
proof (relation "measure (\<lambda>(self, stitches0, simplex, p). length simplex)")
  show "wf (measure (\<lambda>(self, stitches0, simplex, p). length simplex))" by simp
next
  fix self :: "'p geometric_skeleton list" and stitches0 :: "nat \<rightharpoonup> nat"
    and simplex :: simplex and p x2 i :: nat
  assume "i \<in> set [0..<length simplex mod 256]"
  then have "i < length simplex"
    by (metis atLeastLessThan_iff mod_less_eq_dividend order_less_le_trans set_upt)
  then show "((self, stitches0, delete_vertex simplex i, p), self, stitches0, simplex, p)
        \<in> measure (\<lambda>(self, stitches0, simplex, p). length simplex)"
    by (simp add: delete_vertex_def)
qed

declare compute_dual_cells.simps [simp del]

text \<open>
  A complex of one edge with the vertices \<open>0\<close> and \<open>1\<close>, at the coordinates \<open>0\<close> and
  \<open>2\<close> of a line: the skeleta of dimension 0 and 1 with their circumcenters.
\<close>

definition edge_complex :: "int list geometric_skeleton list" where
  "edge_complex =
     [\<lparr>dim = 0, simplices = [[1], [0]], simplex_to_index = [{1} \<mapsto> 0, {0} \<mapsto> 1],
       num_simplices = 2,
       exterior_derivative = \<lparr>data = [1, - 1], indices = [0, 1], indptr = [0, 2], shape = (1, 2)\<rparr>,
       circumcenters = [[0] \<mapsto> [0], [1] \<mapsto> [2]]\<rparr>,
      \<lparr>dim = 1, simplices = [[0, 1]], simplex_to_index = [{0, 1} \<mapsto> 0],
       num_simplices = 1,
       exterior_derivative = csr_zeros 1 1,
       circumcenters = [[0, 1] \<mapsto> [1]]\<rparr>]"

section \<open>Geometry\<close>

text \<open>
  Coordinates are complex numbers. A matrix is the list of its rows. \<open>A.dot(B)\<close> and
  \<open>A.conj().T\<close> take the number of columns of their result, which an array without rows
  still has. The operations of this first group are the exact ones.
\<close>

type_synonym matrix = "complex list list"

definition mat_dot :: "nat \<Rightarrow> matrix \<Rightarrow> matrix \<Rightarrow> matrix" where
  "mat_dot c A B =
     map (\<lambda>row. map (\<lambda>j. \<Sum>i\<leftarrow>[0..<length B]. row ! i * B ! i ! j) [0..<c]) A"

definition conj_transpose :: "nat \<Rightarrow> matrix \<Rightarrow> matrix" where
  "conj_transpose c A = map (\<lambda>j. map (\<lambda>row. cnj (row ! j)) A) [0..<c]"

text \<open>
  The determinant (\<open>zdet_r\<close>), by expansion along the first row, and the exact inverse,
  with the errors of \<open>scipy.linalg.inv\<close>: \<open>ValueError\<close> for an array that is empty or not
  square, \<open>LinAlgError\<close> for a singular matrix.
\<close>

definition minor :: "matrix \<Rightarrow> nat \<Rightarrow> nat \<Rightarrow> matrix" where
  "minor A i j =
     map (\<lambda>row. take j row @ drop (j + 1) row) (take i A @ drop (i + 1) A)"

primrec det_n :: "nat \<Rightarrow> matrix \<Rightarrow> complex" where
  "det_n 0 A = 1"
| "det_n (Suc n) A = (\<Sum>j\<leftarrow>[0..<Suc n]. (- 1) ^ j * A ! 0 ! j * det_n n (minor A 0 j))"

definition det :: "matrix \<Rightarrow> complex" where
  "det A = det_n (length A) A"

definition inv_mat :: "matrix \<Rightarrow> error + matrix" where
  "inv_mat A =
     (if A = [] \<or> \<not> list_all (\<lambda>row. length row = length A) A then Inl ValueError
      else if det A = 0 then Inl LinAlgError
      else Inr (map (\<lambda>i. map (\<lambda>j. (- 1) ^ (i + j) * det (minor A j i) / det A)
                             [0..<length A])
                  [0..<length A]))"

text \<open>
  The shapes \<open>dot\<close> accepts for \<open>points\<close> and \<open>metric\<close>: every point has as many
  coordinates as the metric has rows, and the metric is square. numpy raises otherwise.
\<close>

definition conformable :: "matrix \<Rightarrow> matrix \<Rightarrow> bool" where
  "conformable pts metric \<longleftrightarrow>
     list_all (\<lambda>p. length p = length metric) pts \<and>
     list_all (\<lambda>r. length r = length metric) metric"

text \<open>\<open>points[1:] - points[0]\<close>\<close>

definition edge_vectors :: "matrix \<Rightarrow> matrix" where
  "edge_vectors pts = map (\<lambda>p. map2 (-) p (hd pts)) (tl pts)"

text \<open>The sum of the rows of an array, in exact arithmetic.\<close>

definition column_sums :: "nat \<Rightarrow> matrix \<Rightarrow> complex list" where
  "column_sums c A = map (\<lambda>j. \<Sum>row\<leftarrow>A. row ! j) [0..<c]"

text \<open>
  The arrays of \<open>compute_barycentric_gradients\<close> hold \<open>complex128\<close> numbers, and numpy and
  scipy compute on them in floating point. A \<open>complex128\<close> value is taken as the complex
  number it denotes. Sum, difference and product of two such numbers and
  \<open>scipy.linalg.inv\<close> belong to the platform, not to the sources: they are parameters of
  the model, and nothing is assumed of what they return. Negation and conjugation only
  change a sign: they are exact.
\<close>

record arith =
  fl_add :: "complex \<Rightarrow> complex \<Rightarrow> complex"
  fl_sub :: "complex \<Rightarrow> complex \<Rightarrow> complex"
  fl_mul :: "complex \<Rightarrow> complex \<Rightarrow> complex"
  fl_inv :: "matrix \<Rightarrow> error + matrix"

text \<open>
  The array operations in terms of the scalar ones. A sum starts from \<open>0\<close> and adds the
  terms in index order; \<open>A.sum(axis=0)\<close> adds the rows from the first to the last.
\<close>

definition array_sum :: "arith \<Rightarrow> complex list \<Rightarrow> complex" where
  "array_sum ar xs = foldl (fl_add ar) 0 xs"

definition array_edge_vectors :: "arith \<Rightarrow> matrix \<Rightarrow> matrix" where
  "array_edge_vectors ar pts = map (\<lambda>p. map2 (fl_sub ar) p (hd pts)) (tl pts)"

definition array_dot :: "arith \<Rightarrow> nat \<Rightarrow> matrix \<Rightarrow> matrix \<Rightarrow> matrix" where
  "array_dot ar c A B =
     map (\<lambda>row. map (\<lambda>j. array_sum ar (map (\<lambda>i. fl_mul ar (row ! i) (B ! i ! j))
                                             [0..<length B]))
                    [0..<c]) A"

definition array_sum_axis0 :: "arith \<Rightarrow> nat \<Rightarrow> matrix \<Rightarrow> complex list" where
  "array_sum_axis0 ar c A = map (\<lambda>j. array_sum ar (map (\<lambda>row. row ! j) A)) [0..<c]"

text \<open>
  \<open>_SimplicialComplex.compute_barycentric_gradients\<close>: the first row of the result is
  \<open>-grads.sum(axis=0)\<close>, the other rows are \<open>grads\<close>. \<open>dot\<close> raises \<open>ValueError\<close> for an
  inverse whose rows are not as long as \<open>V1\<close> has rows.
\<close>

definition compute_barycentric_gradients :: "arith \<Rightarrow> matrix \<Rightarrow> matrix \<Rightarrow> error + matrix" where
  "compute_barycentric_gradients ar pts metric =
     (if pts = [] then Inl IndexError
      else if \<not> conformable pts metric then Inl ValueError
      else
        let V = array_edge_vectors ar pts;
            V1 = array_dot ar (length metric) V metric
        in case fl_inv ar (array_dot ar (length V) V1
                             (conj_transpose (length metric) V)) of
             Inl e \<Rightarrow> Inl e
           | Inr G \<Rightarrow>
               if \<not> list_all (\<lambda>row. length row = length V1) G then Inl ValueError
               else
                 let grads = array_dot ar (length metric) G V1
                 in Inr (map uminus (array_sum_axis0 ar (length metric) grads) # grads))"

text \<open>
  The arithmetic of IEEE 754 \<open>binary64\<close> numbers, rounding to the nearest number with a
  significand of 53 bits, a tie to the one with the even significand, and gradual
  underflow below \<open>2 ^ - 1022\<close>. Infinities, NaN and the sign of zero are not represented.
  \<open>ilog2 x\<close> is the integer part of the binary logarithm of a positive \<open>x\<close>.
\<close>

definition round_even :: "real \<Rightarrow> int" where
  "round_even x =
     (let n = \<lfloor>x\<rfloor>; r = x - of_int n
      in if r < 1 / 2 then n else if 1 / 2 < r then n + 1 else if even n then n else n + 1)"

definition pow2 :: "int \<Rightarrow> real" where
  "pow2 k = (if 0 \<le> k then 2 ^ nat k else 1 / 2 ^ nat (- k))"

definition ilog2 :: "real \<Rightarrow> int" where
  "ilog2 x = (if 1 \<le> x then bitlen \<lfloor>x\<rfloor> - 1 else - bitlen (\<lceil>1 / x\<rceil> - 1))"

definition binary64 :: "real \<Rightarrow> real" where
  "binary64 x =
     (if x = 0 then 0
      else let e = max (ilog2 \<bar>x\<bar> - 52) (- 1074)
           in of_int (round_even (x / pow2 e)) * pow2 e)"

text \<open>
  \<open>complex128\<close>: a pair of \<open>binary64\<close> numbers. Sum and difference round each part; the
  product rounds the four real products and then their sum and difference.
  \<open>scipy.linalg.inv\<close> is LAPACK's: it is idealised as the exact inverse, rounded entry by
  entry, which is what LAPACK returns where nothing is rounded, as at the identity matrix.
\<close>

definition complex128_round :: "complex \<Rightarrow> complex" where
  "complex128_round z = Complex (binary64 (Re z)) (binary64 (Im z))"

definition complex128 :: arith where
  "complex128 =
     \<lparr>fl_add = (\<lambda>x y. complex128_round (x + y)),
      fl_sub = (\<lambda>x y. complex128_round (x - y)),
      fl_mul = (\<lambda>x y. Complex (binary64 (binary64 (Re x * Re y) - binary64 (Im x * Im y)))
                               (binary64 (binary64 (Re x * Im y) + binary64 (Im x * Re y)))),
      fl_inv = (\<lambda>A. map_sum id (map (map complex128_round)) (inv_mat A))\<rparr>"

text \<open>
  Modelled from the spec: \<open>parmap\<close> of the module \<open>parallel\<close>, which is not among the
  sources. The specification gives \<open>map(fn, items) -> ordered results\<close>, and a unit that
  fails ends the whole computation. \<open>None\<close>: a unit does not return.
\<close>

fun parmap :: "('a \<Rightarrow> (error + 'b) option) \<Rightarrow> 'a list \<Rightarrow> (error + 'b list) option" where
  "parmap f [] = Some (Inr [])"
| "parmap f (x # xs) =
     (case f x of
        None \<Rightarrow> None
      | Some (Inl e) \<Rightarrow> Some (Inl e)
      | Some (Inr y) \<Rightarrow>
         (case parmap f xs of
            None \<Rightarrow> None
          | Some (Inl e) \<Rightarrow> Some (Inl e)
          | Some (Inr ys) \<Rightarrow> Some (Inr (y # ys))))"

text \<open>
  \<open>arr = empty(n)\<close> followed by \<open>arr[index] = v\<close> for every pair, in order. A slot that
  no pair writes holds no defined value: \<open>None\<close>.
\<close>

definition scatter :: "nat \<Rightarrow> (nat \<times> 'a) list \<Rightarrow> error + 'a option list" where
  "scatter n pairs =
     foldl (\<lambda>acc (index, v).
              case acc of
                Inl e \<Rightarrow> Inl e
              | Inr arr \<Rightarrow> if index < length arr then Inr (arr[index := Some v])
                           else Inl IndexError)
       (Inr (replicate n None)) pairs"

text \<open>\<open>to_index[frozenset(stitch(simplex, stitches))]\<close>\<close>

definition stitched_index ::
  "(nat \<rightharpoonup> nat) \<Rightarrow> (nat set \<rightharpoonup> nat) \<Rightarrow> simplex \<Rightarrow> (error + nat) option" where
  "stitched_index stitches0 to_index simplex =
     (case stitch simplex stitches0 of
        None \<Rightarrow> None
      | Some key \<Rightarrow>
         (case to_index (set key) of
            None \<Rightarrow> Some (Inl KeyError)
          | Some index \<Rightarrow> Some (Inr index)))"

text \<open>
  The \<open>barycentric_gradients\<close> attribute of the complex. \<open>metrics\<close> is the \<open>metrics\<close>
  attribute of the top skeleton, the result of \<open>derham_map\<close>, which is not among the
  sources: it is a parameter.
\<close>

definition SimplicialComplex_barycentric_gradients ::
  "arith \<Rightarrow> matrix list \<Rightarrow> simplicial_complex \<Rightarrow> (error + matrix option list) option" where
  "SimplicialComplex_barycentric_gradients ar metrics cx =
     (case parmap (\<lambda>(u, pts, metric).
                    case stitched_index (stitches cx) (simplex_to_index (top_sk cx)) u of
                      None \<Rightarrow> None
                    | Some (Inl e) \<Rightarrow> Some (Inl e)
                    | Some (Inr index) \<Rightarrow>
                       (case compute_barycentric_gradients ar pts metric of
                          Inl e \<Rightarrow> Some (Inl e)
                        | Inr bc \<Rightarrow> Some (Inr (index, bc))))
             (zip (unstitched (top_sk cx)) (zip (points (top_sk cx)) metrics)) of
        None \<Rightarrow> None
      | Some (Inl e) \<Rightarrow> Some (Inl e)
      | Some (Inr pairs) \<Rightarrow> Some (scatter (num_simplices (top_sk cx)) pairs))"

text \<open>\<open>_Skeleton.compute_primal_volumes\<close>; \<open>sqrt\<close> is the principal complex square root.\<close>

definition compute_primal_volumes :: "matrix \<Rightarrow> matrix \<Rightarrow> error + complex" where
  "compute_primal_volumes pts metric =
     (if pts = [] then Inl IndexError
      else if \<not> conformable pts metric then Inl ValueError
      else
        let vecs = edge_vectors pts
        in Inr (csqrt (det (mat_dot (length vecs) (mat_dot (length metric) vecs metric)
                              (conj_transpose (length metric) vecs)))))"

text \<open>\<open>_Skeleton.compute_unstitched\<close>: the set of the faces of an unstitched simplex.\<close>

definition compute_unstitched :: "simplex \<Rightarrow> simplex set" where
  "compute_unstitched simplex = set (map (delete_vertex simplex) [0..<length simplex])"

text \<open>
  Modelled from the spec: \<open>parmapreduce\<close> of the module \<open>parallel\<close>, which is not among
  the sources, combines the results of \<open>compute_unstitched\<close> with set union. This is the
  set of the unstitched simplices of the skeleton \<open>n\<close> dimensions below the top one. The
  \<open>unstitched\<close> attribute is \<open>list\<close> of this set: a list without repetition, in an order
  the language does not fix.
\<close>

fun unstitched_below :: "simplex list \<Rightarrow> nat \<Rightarrow> simplex set" where
  "unstitched_below top_unstitched 0 = set top_unstitched"
| "unstitched_below top_unstitched (Suc n) =
     (\<Union>simplex\<in>unstitched_below top_unstitched n. compute_unstitched simplex)"

text \<open>\<open>self.complex.vertices[asarray(self.unstitched)]\<close>\<close>

definition gather :: "complex list list \<Rightarrow> simplex list \<Rightarrow> matrix list" where
  "gather verts us = map (map (\<lambda>v. verts ! v)) us"

text \<open>
  The \<open>primal_volumes\<close> attribute of \<open>complex[d]\<close>. \<open>us\<close> is its \<open>unstitched\<close> list and
  \<open>metrics\<close> its \<open>metrics\<close> attribute (the result of \<open>derham_map\<close>, a parameter).
\<close>

definition Skeleton_primal_volumes ::
  "simplicial_complex \<Rightarrow> nat \<Rightarrow> simplex list \<Rightarrow> matrix list \<Rightarrow> (error + complex option list) option" where
  "Skeleton_primal_volumes cx d us metrics =
     (case getitem cx d of
        Inl e \<Rightarrow> Some (Inl e)
      | Inr sk \<Rightarrow>
          if dim sk \<noteq> 0 then
            (case parmap (\<lambda>(u, pts, metric).
                           case stitched_index (stitches cx) (simplex_to_index sk) u of
                             None \<Rightarrow> None
                           | Some (Inl e) \<Rightarrow> Some (Inl e)
                           | Some (Inr index) \<Rightarrow>
                              (case compute_primal_volumes pts metric of
                                 Inl e \<Rightarrow> Some (Inl e)
                               | Inr volume \<Rightarrow> Some (Inr (index, volume))))
                    (zip us (zip (gather (vertices cx) us) metrics)) of
               None \<Rightarrow> None
             | Some (Inl e) \<Rightarrow> Some (Inl e)
             | Some (Inr primal_volumes) \<Rightarrow>
                 Some (map_sum id (map (map_option (\<lambda>v. v / of_nat (fact (nat (dim sk))))))
                         (scatter (num_simplices sk) primal_volumes)))
          else Some (Inr (replicate (num_simplices sk) (Some 1))))"

text \<open>
  The scenario of the specification: one triangle with the vertices \<open>(0,0)\<close>, \<open>(1,0)\<close>,
  \<open>(0,1)\<close>, no stitches, and the identity as metric.
\<close>

definition triangle :: "(error + simplicial_complex) option" where
  "triangle = SimplicialComplex_init \<lparr>rows = [[0, 1, 2]], columns = 3\<rparr>
                [[0, 0], [1, 0], [0, 1]] Map.empty"

definition euclidean :: matrix where
  "euclidean = [[1, 0], [0, 1]]"

text \<open>
  The matrix \<open>exterior_derivative(d) . exterior_derivative(d - 1)\<close> of a complex, as the
  list of its rows: the exterior derivative of \<open>complex[d]\<close> times that of
  \<open>complex[d - 1]\<close>.
\<close>

definition exterior_composition :: "nat \<Rightarrow> simplicial_complex \<Rightarrow> error + int list list" where
  "exterior_composition d cx =
     (case getitem cx d of
        Inl e \<Rightarrow> Inl e
      | Inr hi \<Rightarrow>
         (case getitem cx (d - 1) of
            Inl e \<Rightarrow> Inl e
          | Inr lo \<Rightarrow>
              Inr (map (\<lambda>r. map (\<lambda>c. csr_dot_entry (exterior_derivative hi)
                                        (exterior_derivative lo) r c)
                                [0..<snd (shape (exterior_derivative lo))])
                     [0..<fst (shape (exterior_derivative hi))])))"

section \<open>Construction\<close>

lemma those_map_Some_length:
  "those (map f xs) = Some ys \<Longrightarrow> length ys = length xs"
proof (induction xs arbitrary: ys)
  case Nil
  then show ?case by simp
next
  case (Cons x xs)
  then show ?case by (auto split: option.splits)
qed

lemma stitch'_empty: "stitch' Map.empty v = Some v"
  by (subst stitch'.simps) simp

lemma those_map_Some_id: "(\<And>x. x \<in> set xs \<Longrightarrow> f x = Some x) \<Longrightarrow> those (map f xs) = Some xs"
  by (induction xs) auto

lemma stitch_empty: "stitch s Map.empty = Some s"
  unfolding stitch_def by (rule those_map_Some_id) (rule stitch'_empty)

text \<open>
  C10. Once the constructor has returned, the top skeleton has an empty boundary, every
  index \<open>0 ..< num_simplices\<close> in its interior, and the \<open>1 \<times> num_simplices\<close> matrix without
  a stored entry as exterior derivative, whatever the mesh. \<open>num_simplices\<close> is the number
  of rows of the input.
\<close>

theorem top_skeleton_after_init:
  assumes "SimplicialComplex_init simplices0 verts st = Some (Inr cx)"
  shows "boundary (top_sk cx) = []
       \<and> num_simplices (top_sk cx) = length (rows simplices0)
       \<and> interior (top_sk cx) = [0..<num_simplices (top_sk cx)]
       \<and> exterior_derivative (top_sk cx) = csr_zeros 1 (num_simplices (top_sk cx))
       \<and> shape (exterior_derivative (top_sk cx)) = (1, num_simplices (top_sk cx))
       \<and> (\<forall>c. csr_get (exterior_derivative (top_sk cx)) 0 c = 0)"
  using assms
  by (auto simp: SimplicialComplex_init_def Let_def ndarray_sort_def csr_zeros_def csr_get_def
           split: option.splits if_splits)

theorem top_skeleton_after_init_witness:
  "\<exists>cx. SimplicialComplex_init \<lparr>rows = [[0, 1, 2], [1, 2, 3]], columns = 3\<rparr>
           [[0, 0], [1, 0], [0, 1], [1, 1]]
           Map.empty = Some (Inr cx)
        \<and> boundary (top_sk cx) = [] \<and> interior (top_sk cx) = [0, 1]
        \<and> exterior_derivative (top_sk cx) = csr_zeros 1 2"
proof -
  have "\<exists>cx. SimplicialComplex_init \<lparr>rows = [[0, 1, 2], [1, 2, 3]], columns = 3\<rparr>
           [[0, 0], [1, 0], [0, 1], [1, 1]]
           Map.empty = Some (Inr cx)"
    by (simp add: SimplicialComplex_init_def ndarray_sort_def stitch_empty Let_def)
  then obtain cx where h: "SimplicialComplex_init \<lparr>rows = [[0, 1, 2], [1, 2, 3]], columns = 3\<rparr>
      [[0, 0], [1, 0], [0, 1], [1, 1]] Map.empty = Some (Inr cx)"
    by blast
  from top_skeleton_after_init [OF h] have "boundary (top_sk cx) = []
      \<and> interior (top_sk cx) = [0, 1] \<and> exterior_derivative (top_sk cx) = csr_zeros 1 2"
    by (simp add: upt_rec numeral_2_eq_2)
  with h show ?thesis by blast
qed

section \<open>The loop invariant of compute\_exterior\<close>

lemma exterior_step_hit:
  "loc_simplex_to_index st (set (delete_vertex s j)) = Some i \<Longrightarrow>
   exterior_step s st j = st\<lparr>loc_indices := loc_indices st @ [i], loc_data := loc_data st @ [(- 1) ^ j]\<rparr>"
  by (simp add: exterior_step_def Let_def)

lemma exterior_step_miss:
  "loc_simplex_to_index st (set (delete_vertex s j)) = None \<Longrightarrow>
   exterior_step s st j =
     st\<lparr>loc_simplex_to_index := (loc_simplex_to_index st)(set (delete_vertex s j) \<mapsto> loc_num_simplices st),
        loc_indices := loc_indices st @ [loc_num_simplices st],
        loc_simplices := loc_simplices st @ [delete_vertex s j],
        loc_num_simplices := loc_num_simplices st + 1,
        loc_data := loc_data st @ [(- 1) ^ j]\<rparr>"
  by (simp add: exterior_step_def Let_def)

lemma dedup_inv_hit:
  assumes inv: "dedup_inv P st" and hit: "loc_simplex_to_index st (set f) = Some i"
  shows "dedup_inv (P @ [f]) (st\<lparr>loc_indices := loc_indices st @ [i], loc_data := d\<rparr>)"
proof -
  from inv hit have i: "i < length (loc_simplices st)" "set (loc_simplices st ! i) = set f"
    by (auto simp: dedup_inv_def)
  with inv have "loc_simplices st ! i \<in> set P"
    by (auto simp: dedup_inv_def)
  then obtain q where q: "q < length P" "P ! q = loc_simplices st ! i"
    by (auto simp: in_set_conv_nth)
  with i have seen: "\<exists>q<length P. set (P ! q) = set f" by auto
  show ?thesis
    unfolding dedup_inv_def
    using inv hit seen
    by (auto simp: dedup_inv_def nth_append less_Suc_eq)
qed

lemma dedup_inv_miss:
  assumes inv: "dedup_inv P st" and miss: "loc_simplex_to_index st (set f) = None"
  shows "dedup_inv (P @ [f])
           (st\<lparr>loc_simplex_to_index := (loc_simplex_to_index st)(set f \<mapsto> loc_num_simplices st),
               loc_indices := loc_indices st @ [loc_num_simplices st],
               loc_simplices := loc_simplices st @ [f],
               loc_num_simplices := loc_num_simplices st + 1,
               loc_data := d\<rparr>)"
proof -
  let ?S = "loc_simplices st"
  let ?n = "length ?S"
  from inv have n: "loc_num_simplices st = ?n" and len: "length (loc_indices st) = length P"
    and dist: "distinct (map set ?S)" and sub: "set ?S \<subseteq> set P"
    and sup: "set ` set P \<subseteq> set ` set ?S"
    and idx: "\<And>k i. loc_simplex_to_index st k = Some i \<longleftrightarrow> i < ?n \<and> set (?S ! i) = k"
    and look: "\<And>p. p < length P \<Longrightarrow> loc_simplex_to_index st (set (P ! p)) = Some (loc_indices st ! p)"
    and fresh: "\<And>p. p < length P \<Longrightarrow> (\<forall>q<p. set (P ! q) \<noteq> set (P ! p)) \<Longrightarrow>
          loc_indices st ! p = card (set ` set (take p P))
        \<and> ?S ! (loc_indices st ! p) = P ! p"
    unfolding dedup_inv_def by blast+
  have new: "set f \<notin> set ` set ?S"
  proof
    assume "set f \<in> set ` set ?S"
    then obtain i where "i < ?n" "set (?S ! i) = set f"
      by (auto simp: in_set_conv_nth)
    then have "loc_simplex_to_index st (set f) = Some i" using idx by blast
    with miss show False by simp
  qed
  have newP: "\<And>p. p < length P \<Longrightarrow> set (P ! p) \<noteq> set f"
    using new sup by (metis image_eqI nth_mem subsetD)
  have bound: "\<And>p. p < length P \<Longrightarrow> loc_indices st ! p < ?n"
    using look idx by blast
  have card: "card (set ` set P) = ?n"
  proof -
    have "set ` set P = set (map set ?S)" using sub sup by auto
    then show ?thesis using dist distinct_card by fastforce
  qed
  have new': "\<And>i. i < ?n \<Longrightarrow> set (?S ! i) \<noteq> set f"
    using new by (metis image_eqI nth_mem)
  have c1: "distinct (map set (?S @ [f]))" using dist new by simp
  have c2: "set (?S @ [f]) \<subseteq> set (P @ [f])" using sub by auto
  have c3: "set ` set (P @ [f]) \<subseteq> set ` set (?S @ [f])" using sup by auto
  define st' where "st' = st\<lparr>loc_simplex_to_index := (loc_simplex_to_index st)(set f \<mapsto> loc_num_simplices st),
               loc_indices := loc_indices st @ [loc_num_simplices st],
               loc_simplices := loc_simplices st @ [f],
               loc_num_simplices := loc_num_simplices st + 1,
               loc_data := d\<rparr>"
  have sel: "loc_simplices st' = ?S @ [f]" "loc_indices st' = loc_indices st @ [?n]"
    "loc_simplex_to_index st' = (loc_simplex_to_index st)(set f \<mapsto> ?n)"
    "loc_num_simplices st' = ?n + 1"
    by (simp_all add: st'_def n)
  have c0: "?n + 1 = length (?S @ [f])" by simp
  have c0': "length (loc_indices st @ [?n]) = length (P @ [f])" using len by simp
  have c4: "\<forall>k i. ((loc_simplex_to_index st)(set f \<mapsto> ?n)) k = Some i \<longleftrightarrow>
              i < length (?S @ [f]) \<and> set ((?S @ [f]) ! i) = k"
    using idx new' by (auto simp: nth_append less_Suc_eq)
  have c5: "\<forall>p<length (P @ [f]).
      ((loc_simplex_to_index st)(set f \<mapsto> ?n)) (set ((P @ [f]) ! p)) = Some ((loc_indices st @ [?n]) ! p)"
    using look newP len by (auto simp: nth_append less_Suc_eq)
  have c6: "\<forall>p<length (P @ [f]). (\<forall>q<p. set ((P @ [f]) ! q) \<noteq> set ((P @ [f]) ! p)) \<longrightarrow>
          (loc_indices st @ [?n]) ! p = card (set ` set (take p (P @ [f])))
        \<and> (?S @ [f]) ! ((loc_indices st @ [?n]) ! p) = (P @ [f]) ! p"
  proof (intro allI impI)
    fix p assume p: "p < length (P @ [f])"
      and first: "\<forall>q<p. set ((P @ [f]) ! q) \<noteq> set ((P @ [f]) ! p)"
    show "(loc_indices st @ [?n]) ! p = card (set ` set (take p (P @ [f])))
        \<and> (?S @ [f]) ! ((loc_indices st @ [?n]) ! p) = (P @ [f]) ! p"
    proof (cases "p < length P")
      case True
      with first have "\<forall>q<p. set (P ! q) \<noteq> set (P ! p)" by (auto simp: nth_append)
      from fresh [OF True this]
      have a: "loc_indices st ! p = card (set ` set (take p P))"
        and b: "?S ! (loc_indices st ! p) = P ! p" by blast+
      have "(loc_indices st @ [?n]) ! p = loc_indices st ! p"
        using True len by (simp add: nth_append)
      moreover have "(?S @ [f]) ! (loc_indices st ! p) = ?S ! (loc_indices st ! p)"
        using bound [OF True] by (simp add: nth_append)
      moreover have "take p (P @ [f]) = take p P" "(P @ [f]) ! p = P ! p"
        using True by (simp_all add: nth_append)
      ultimately show ?thesis using a b by metis
    next
      case False
      with p have "p = length P" by simp
      then show ?thesis using len card by (simp add: nth_append)
    qed
  qed
  have "dedup_inv (P @ [f]) st'"
    unfolding dedup_inv_def sel
    by (intro conjI c0 c0' c1 c2 c3 c4 c5 c6)
  then show ?thesis by (simp add: st'_def)
qed

lemma dedup_inv_step:
  assumes "dedup_inv P st"
  shows "dedup_inv (P @ [delete_vertex s j]) (exterior_step s st j)"
proof (cases "loc_simplex_to_index st (set (delete_vertex s j))")
  case None
  then show ?thesis
    using dedup_inv_miss [OF assms None] by (simp add: exterior_step_miss)
next
  case (Some i)
  then show ?thesis
    using dedup_inv_hit [OF assms Some] by (simp add: exterior_step_hit)
qed

lemma dedup_inv_inner:
  "dedup_inv P st \<Longrightarrow>
   dedup_inv (P @ map (delete_vertex s) js) (foldl (exterior_step s) st js)"
proof (induction js arbitrary: P st)
  case Nil
  then show ?case by simp
next
  case (Cons j js)
  from Cons.IH [OF dedup_inv_step [OF Cons.prems, of s j]] show ?case by simp
qed

lemma dedup_inv_indptr: "dedup_inv P (st\<lparr>loc_indptr := x\<rparr>) = dedup_inv P st"
  by (simp add: dedup_inv_def)

lemma dedup_inv_row:
  "dedup_inv P st \<Longrightarrow>
   dedup_inv (P @ map (delete_vertex s) [0..<m]) (exterior_row m st (c, s))"
  by (simp add: exterior_row_def Let_def dedup_inv_indptr dedup_inv_inner)

lemma dedup_inv_outer:
  "dedup_inv P st \<Longrightarrow> length cs = length old \<Longrightarrow>
   dedup_inv (P @ all_faces m old) (foldl (exterior_row m) st (zip cs old))"
proof (induction cs old arbitrary: P st rule: list_induct2')
  case (4 c cs s old)
  from 4 have "dedup_inv ((P @ map (delete_vertex s) [0..<m]) @ all_faces m old)
     (foldl (exterior_row m) (exterior_row m st (c, s)) (zip cs old))"
    by (intro "4.IH" dedup_inv_row) simp_all
  then show ?case by (simp add: all_faces_def)
qed (simp_all add: all_faces_def)

lemma dedup_inv_init: "dedup_inv [] exterior_init"
  by (simp add: dedup_inv_def exterior_init_def)

lemma inner_data:
  "loc_data (foldl (exterior_step s) st js) = loc_data st @ map (\<lambda>j. (- 1) ^ j) js"
  by (induction js arbitrary: st) (simp_all add: exterior_step_def Let_def split: option.splits)

lemma inner_indptr:
  "loc_indptr (foldl (exterior_step s) st js) = loc_indptr st"
  by (induction js arbitrary: st) (simp_all add: exterior_step_def Let_def split: option.splits)

lemma outer_data:
  "length cs = length old \<Longrightarrow>
   loc_data (foldl (exterior_row m) st (zip cs old)) =
     loc_data st @ concat (map (\<lambda>s. map (\<lambda>j. (- 1) ^ j) [0..<m]) old)"
  by (induction cs old arbitrary: st rule: list_induct2)
     (simp_all add: exterior_row_def Let_def inner_data)

lemma outer_indptr:
  "length cs = length old \<Longrightarrow>
   loc_indptr (foldl (exterior_row m) st (zip cs old)) =
     loc_indptr st @ map (\<lambda>c. (c + 1) * m) cs"
  by (induction cs old arbitrary: st rule: list_induct2)
     (simp_all add: exterior_row_def Let_def inner_indptr)

lemma nth_concat_uniform:
  "r < length xss \<Longrightarrow> j < m \<Longrightarrow> \<forall>xs\<in>set xss. length xs = m \<Longrightarrow>
   concat xss ! (r * m + j) = xss ! r ! j"
proof (induction xss arbitrary: r)
  case Nil
  then show ?case by simp
next
  case (Cons xs xss)
  show ?case
  proof (cases r)
    case 0
    with Cons.prems show ?thesis by (simp add: nth_append)
  next
    case (Suc r')
    with Cons.prems have "concat xss ! (r' * m + j) = xss ! r' ! j"
      by (intro Cons.IH) simp_all
    with Suc Cons.prems show ?thesis by (simp add: nth_append)
  qed
qed

lemma length_concat_uniform:
  "\<forall>xs\<in>set xss. length xs = m \<Longrightarrow> length (concat xss) = length xss * m"
  by (induction xss) simp_all

lemma length_all_faces: "length (all_faces m old) = length old * m"
  using length_concat_uniform [of "map (\<lambda>s. map (delete_vertex s) [0..<m]) old" m]
  by (simp add: all_faces_def)

lemma nth_all_faces:
  "r < length old \<Longrightarrow> j < m \<Longrightarrow> all_faces m old ! (r * m + j) = delete_vertex (old ! r) j"
  using nth_concat_uniform [of r "map (\<lambda>s. map (delete_vertex s) [0..<m]) old" j m]
  by (simp add: all_faces_def)

lemma compute_exterior_state:
  assumes "compute_exterior d old = Inr sk"
  shows "old \<noteq> []"
    and "state_of sk = foldl (exterior_row (width old)) exterior_init (zip [0..<length old] old)"
    and "shape (exterior_derivative sk) = (length old, length (simplices sk))"
    and "dim sk = d"
  using assms
  by (auto simp: compute_exterior_def state_of_def width_def Let_def split: if_splits)

lemma compute_exterior_inv:
  assumes "compute_exterior d old = Inr sk"
  shows "dedup_inv (all_faces (width old) old) (state_of sk)"
  using dedup_inv_outer [OF dedup_inv_init, of "[0..<length old]" old "width old"]
    compute_exterior_state(2) [OF assms]
  by simp

lemma compute_exterior_data:
  assumes "compute_exterior d old = Inr sk"
  shows "data (exterior_derivative sk) =
           concat (map (\<lambda>s. map (\<lambda>j. (- 1) ^ j) [0..<width old]) old)"
    and "indptr (exterior_derivative sk) = map (\<lambda>c. c * width old) [0..<length old + 1]"
proof -
  have st: "state_of sk = foldl (exterior_row (width old)) exterior_init (zip [0..<length old] old)"
    by (rule compute_exterior_state(2) [OF assms])
  have "loc_data (state_of sk) = concat (map (\<lambda>s. map (\<lambda>j. (- 1) ^ j) [0..<width old]) old)"
    unfolding st by (subst outer_data) (simp_all add: exterior_init_def)
  then show "data (exterior_derivative sk) =
           concat (map (\<lambda>s. map (\<lambda>j. (- 1) ^ j) [0..<width old]) old)"
    by (simp add: state_of_def)
  have "loc_indptr (state_of sk) = [0] @ map (\<lambda>c. (c + 1) * width old) [0..<length old]"
    unfolding st by (subst outer_indptr) (simp_all add: exterior_init_def)
  also have "\<dots> = map (\<lambda>c. c * width old) [0..<length old + 1]"
    by (simp add: upt_rec [of 0] map_Suc_upt [symmetric] del: upt_Suc)
  finally show "indptr (exterior_derivative sk) = map (\<lambda>c. c * width old) [0..<length old + 1]"
    by (simp add: state_of_def)
qed

lemma width_uniform:
  "old \<noteq> [] \<Longrightarrow> \<forall>s\<in>set old. length s = m \<Longrightarrow> m < 256 \<Longrightarrow> width old = m"
  by (cases old) (simp_all add: width_def)

lemma exterior_lookup:
  assumes ce: "compute_exterior d old = Inr sk"
    and rect: "\<forall>s\<in>set old. length s = m" and m: "m < 256"
    and r: "r < length old" and j: "j < m"
  shows "simplex_to_index sk (set (delete_vertex (old ! r) j)) =
           Some (indices (exterior_derivative sk) ! (r * m + j))"
    and "data (exterior_derivative sk) ! (r * m + j) = (- 1) ^ j"
proof -
  have w: "width old = m"
    using compute_exterior_state(1) [OF ce] rect m by (rule width_uniform)
  have "r * m + j < r * m + m" using j by simp
  also have "\<dots> \<le> length old * m" using r
    by (metis Suc_leI mult_Suc mult_le_mono1 add.commute)
  finally have p: "r * m + j < length (all_faces m old)" by (simp add: length_all_faces)
  from compute_exterior_inv [OF ce] p
  have "loc_simplex_to_index (state_of sk) (set (all_faces m old ! (r * m + j))) =
          Some (loc_indices (state_of sk) ! (r * m + j))"
    unfolding dedup_inv_def w by blast
  then show "simplex_to_index sk (set (delete_vertex (old ! r) j)) =
           Some (indices (exterior_derivative sk) ! (r * m + j))"
    using r j by (simp add: state_of_def nth_all_faces)
  have "data (exterior_derivative sk) ! (r * m + j) =
          map (\<lambda>s. map (\<lambda>j. (- 1) ^ j) [0..<m]) old ! r ! j"
    unfolding compute_exterior_data(1) [OF ce] w
    using r j by (intro nth_concat_uniform) simp_all
  then show "data (exterior_derivative sk) ! (r * m + j) = (- 1) ^ j"
    using r j by simp
qed

lemma csr_get_exterior:
  assumes ce: "compute_exterior d old = Inr sk"
    and rect: "\<forall>s\<in>set old. length s = m" and m: "m < 256"
    and r: "r < length old"
  shows "csr_get (exterior_derivative sk) r c =
           (\<Sum>j\<leftarrow>[0..<m]. if simplex_to_index sk (set (delete_vertex (old ! r) j)) = Some c
                           then (- 1) ^ j else 0)"
proof -
  let ?E = "exterior_derivative sk"
  have w: "width old = m"
    using compute_exterior_state(1) [OF ce] rect m by (rule width_uniform)
  have lo: "indptr ?E ! r = r * m" and hi: "indptr ?E ! (r + 1) = r * m + m"
    unfolding compute_exterior_data(2) [OF ce] w using r
    by (simp_all add: nth_map_upt del: upt_Suc)
  have rng: "[r * m ..< r * m + m] = map (\<lambda>j. r * m + j) [0..<m]"
    by (simp add: map_add_upt add.commute)
  have "csr_get ?E r c =
          (\<Sum>j\<leftarrow>[0..<m]. if indices ?E ! (r * m + j) = c then data ?E ! (r * m + j) else 0)"
    unfolding csr_get_def lo hi rng by (simp add: comp_def)
  also have "\<dots> = (\<Sum>j\<leftarrow>[0..<m]. if simplex_to_index sk (set (delete_vertex (old ! r) j)) = Some c
                           then (- 1) ^ j else 0)"
    by (rule arg_cong [where f = sum_list], rule map_cong [OF refl])
       (simp add: exterior_lookup [OF ce rect m r])
  finally show ?thesis .
qed

section \<open>What compute\_exterior computes\<close>

lemma set_delete_vertex:
  assumes "distinct s" "j < length s"
  shows "set (delete_vertex s j) = set s - {s ! j}"
proof -
  have s: "s = take j s @ s ! j # drop (Suc j) s"
    using assms(2) by (rule id_take_nth_drop)
  with assms(1) have "distinct (take j s @ s ! j # drop (Suc j) s)" by simp
  then have "s ! j \<notin> set (take j s)" "s ! j \<notin> set (drop (Suc j) s)" by auto
  moreover have "set s = set (take j s) \<union> {s ! j} \<union> set (drop (Suc j) s)"
    by (subst s) auto
  ultimately show ?thesis by (auto simp: delete_vertex_def)
qed

lemma delete_vertex_inj:
  assumes "distinct s" "j < length s" "j' < length s"
    and "set (delete_vertex s j) = set (delete_vertex s j')"
  shows "j = j'"
proof -
  from assms have "set s - {s ! j} = set s - {s ! j'}" by (simp add: set_delete_vertex)
  moreover have "s ! j \<in> set s" "s ! j' \<in> set s" using assms by simp_all
  ultimately have "s ! j = s ! j'" by blast
  with assms show ?thesis by (simp add: nth_eq_iff_index_eq)
qed

lemma sum_list_delta:
  "j < m \<Longrightarrow> (\<Sum>i\<leftarrow>[0..<m]. if i = j then f i else (0::int)) = f j"
  by (simp add: interv_sum_list_conv_sum_set_nat)

lemma index_inj:
  assumes "dedup_inv P st" "loc_simplex_to_index st k = Some i" "loc_simplex_to_index st k' = Some i"
  shows "k = k'"
  using assms unfolding dedup_inv_def by metis

lemma csr_get_exterior_face:
  assumes ce: "compute_exterior d old = Inr sk"
    and rect: "\<forall>s\<in>set old. length s = m" and m: "m < 256"
    and r: "r < length old" and dist: "distinct (old ! r)" and j: "j < m"
  shows "csr_get (exterior_derivative sk) r (indices (exterior_derivative sk) ! (r * m + j)) = (- 1) ^ j"
proof -
  let ?c = "indices (exterior_derivative sk) ! (r * m + j)"
  have len: "length (old ! r) = m" using rect r by simp
  have eq: "(simplex_to_index sk (set (delete_vertex (old ! r) j')) = Some ?c) = (j' = j)"
    if "j' < m" for j'
  proof
    assume h: "simplex_to_index sk (set (delete_vertex (old ! r) j')) = Some ?c"
    have "simplex_to_index sk (set (delete_vertex (old ! r) j)) = Some ?c"
      by (rule exterior_lookup(1) [OF ce rect m r j])
    with h have "set (delete_vertex (old ! r) j') = set (delete_vertex (old ! r) j)"
      using index_inj [OF compute_exterior_inv [OF ce]] by (simp add: state_of_def)
    then show "j' = j" using delete_vertex_inj [OF dist] that j len by simp
  next
    assume "j' = j"
    then show "simplex_to_index sk (set (delete_vertex (old ! r) j')) = Some ?c"
      using exterior_lookup(1) [OF ce rect m r j] by simp
  qed
  have "csr_get (exterior_derivative sk) r ?c =
          (\<Sum>j'\<leftarrow>[0..<m]. if j' = j then (- 1) ^ j' else 0)"
    unfolding csr_get_exterior [OF ce rect m r]
    by (rule arg_cong [where f = sum_list], rule map_cong [OF refl]) (simp add: eq)
  then show ?thesis using j by (simp add: sum_list_delta)
qed

lemma state_of_sel:
  "loc_indices (state_of sk) = indices (exterior_derivative sk)"
  "loc_indptr (state_of sk) = indptr (exterior_derivative sk)"
  "loc_data (state_of sk) = data (exterior_derivative sk)"
  "loc_simplices (state_of sk) = simplices sk"
  "loc_simplex_to_index (state_of sk) = simplex_to_index sk"
  "loc_num_simplices (state_of sk) = num_simplices sk"
  by (simp_all add: state_of_def)

text \<open>
  C3. \<open>compute_exterior\<close> visits the faces of every row of the higher skeleton in position
  order \<open>j\<close>. The matrix has one row per higher simplex, each with \<open>m\<close> stored entries; the
  entry stored for position \<open>j\<close> is \<open>(-1)^j\<close> and its column is the index of the face's
  vertex set. A vertex set seen for the first time gets the next unused index (the number of
  vertex sets seen before) and its face is stored under that index; two visited faces have
  the same column exactly when they have the same vertex set, so a shared face resolves to
  one column. Where the vertices of a row are distinct, the matrix entry itself is
  \<open>(-1)^j\<close>.
\<close>

theorem compute_exterior_faces:
  assumes ce: "compute_exterior d old = Inr sk"
    and rect: "\<forall>s\<in>set old. length s = m" and m: "m < 256"
  shows "shape (exterior_derivative sk) = (length old, num_simplices sk)
       \<and> indptr (exterior_derivative sk) = map (\<lambda>r. r * m) [0..<length old + 1]
       \<and> length (indices (exterior_derivative sk)) = length old * m
       \<and> length (data (exterior_derivative sk)) = length old * m
       \<and> length (simplices sk) = num_simplices sk
       \<and> num_simplices sk = card (set ` set (all_faces m old))
       \<and> (\<forall>r<length old. \<forall>j<m.
            data (exterior_derivative sk) ! (r * m + j) = (- 1) ^ j
          \<and> indices (exterior_derivative sk) ! (r * m + j) < num_simplices sk
          \<and> simplex_to_index sk (set (delete_vertex (old ! r) j)) =
              Some (indices (exterior_derivative sk) ! (r * m + j))
          \<and> set (simplices sk ! (indices (exterior_derivative sk) ! (r * m + j))) =
              set (delete_vertex (old ! r) j)
          \<and> (distinct (old ! r) \<longrightarrow>
               csr_get (exterior_derivative sk) r
                 (indices (exterior_derivative sk) ! (r * m + j)) = (- 1) ^ j))
       \<and> (\<forall>p<length old * m.
            (\<forall>q<p. set (all_faces m old ! q) \<noteq> set (all_faces m old ! p)) \<longrightarrow>
              indices (exterior_derivative sk) ! p = card (set ` set (take p (all_faces m old)))
            \<and> simplices sk ! (indices (exterior_derivative sk) ! p) = all_faces m old ! p)
       \<and> (\<forall>p<length old * m. \<forall>q<length old * m.
            (indices (exterior_derivative sk) ! p = indices (exterior_derivative sk) ! q) =
            (set (all_faces m old ! p) = set (all_faces m old ! q)))"
proof -
  let ?E = "exterior_derivative sk"
  let ?F = "all_faces m old"
  have w: "width old = m"
    using compute_exterior_state(1) [OF ce] rect m by (rule width_uniform)
  have inv: "dedup_inv ?F (state_of sk)"
    using compute_exterior_inv [OF ce] by (simp add: w)
  have lenF: "length ?F = length old * m" by (rule length_all_faces)
  from inv have n: "num_simplices sk = length (simplices sk)"
    and li: "length (indices ?E) = length ?F"
    and dist: "distinct (map set (simplices sk))"
    and sub: "set (simplices sk) \<subseteq> set ?F"
    and sup: "set ` set ?F \<subseteq> set ` set (simplices sk)"
    and idx: "\<And>k i. simplex_to_index sk k = Some i \<longleftrightarrow>
                i < length (simplices sk) \<and> set (simplices sk ! i) = k"
    and look: "\<And>p. p < length ?F \<Longrightarrow> simplex_to_index sk (set (?F ! p)) = Some (indices ?E ! p)"
    and fresh: "\<forall>p<length ?F. (\<forall>q<p. set (?F ! q) \<noteq> set (?F ! p)) \<longrightarrow>
          indices ?E ! p = card (set ` set (take p ?F))
        \<and> simplices sk ! (indices ?E ! p) = ?F ! p"
    unfolding dedup_inv_def state_of_sel by blast+
  have c1: "shape ?E = (length old, num_simplices sk)"
    using compute_exterior_state(3) [OF ce] n by simp
  have c2: "indptr ?E = map (\<lambda>r. r * m) [0..<length old + 1]"
    using compute_exterior_data(2) [OF ce] w by simp
  have c3: "length (indices ?E) = length old * m" using li lenF by simp
  have c4: "length (data ?E) = length old * m"
    unfolding compute_exterior_data(1) [OF ce] w
    using length_concat_uniform [of "map (\<lambda>s. map (\<lambda>j. (- 1) ^ j) [0..<m]) old" m]
    by simp
  have c5: "length (simplices sk) = num_simplices sk" using n by simp
  have c6: "num_simplices sk = card (set ` set ?F)"
  proof -
    have "set ` set ?F = set (map set (simplices sk))" using sub sup by auto
    then show ?thesis using dist distinct_card n by fastforce
  qed
  have c7: "\<forall>r<length old. \<forall>j<m.
            data ?E ! (r * m + j) = (- 1) ^ j
          \<and> indices ?E ! (r * m + j) < num_simplices sk
          \<and> simplex_to_index sk (set (delete_vertex (old ! r) j)) = Some (indices ?E ! (r * m + j))
          \<and> set (simplices sk ! (indices ?E ! (r * m + j))) = set (delete_vertex (old ! r) j)
          \<and> (distinct (old ! r) \<longrightarrow>
               csr_get ?E r (indices ?E ! (r * m + j)) = (- 1) ^ j)"
  proof (intro allI impI)
    fix r j assume r: "r < length old" and j: "j < m"
    note l = exterior_lookup [OF ce rect m r j]
    from l(1) idx have "indices ?E ! (r * m + j) < length (simplices sk)"
      "set (simplices sk ! (indices ?E ! (r * m + j))) = set (delete_vertex (old ! r) j)"
      by blast+
    then show "data ?E ! (r * m + j) = (- 1) ^ j
          \<and> indices ?E ! (r * m + j) < num_simplices sk
          \<and> simplex_to_index sk (set (delete_vertex (old ! r) j)) = Some (indices ?E ! (r * m + j))
          \<and> set (simplices sk ! (indices ?E ! (r * m + j))) = set (delete_vertex (old ! r) j)
          \<and> (distinct (old ! r) \<longrightarrow>
               csr_get ?E r (indices ?E ! (r * m + j)) = (- 1) ^ j)"
      using l n csr_get_exterior_face [OF ce rect m r _ j] by simp
  qed
  have c8: "\<forall>p<length old * m.
            (\<forall>q<p. set (?F ! q) \<noteq> set (?F ! p)) \<longrightarrow>
              indices ?E ! p = card (set ` set (take p ?F))
            \<and> simplices sk ! (indices ?E ! p) = ?F ! p"
    using fresh unfolding lenF .
  have c9: "\<forall>p<length old * m. \<forall>q<length old * m.
            (indices ?E ! p = indices ?E ! q) = (set (?F ! p) = set (?F ! q))"
  proof (intro allI impI)
    fix p q assume p: "p < length old * m" and q: "q < length old * m"
    from p q lenF have lp: "simplex_to_index sk (set (?F ! p)) = Some (indices ?E ! p)"
      and lq: "simplex_to_index sk (set (?F ! q)) = Some (indices ?E ! q)"
      using look by simp_all
    show "(indices ?E ! p = indices ?E ! q) = (set (?F ! p) = set (?F ! q))"
    proof
      assume "indices ?E ! p = indices ?E ! q"
      with lp lq idx show "set (?F ! p) = set (?F ! q)" by metis
    next
      assume "set (?F ! p) = set (?F ! q)"
      with lp lq show "indices ?E ! p = indices ?E ! q" by simp
    qed
  qed
  show ?thesis by (intro conjI c1 c2 c3 c4 c5 c6 c7 c8 c9)
qed

lemma compute_exterior_total:
  "old \<noteq> [] \<Longrightarrow> compute_exterior d old = Inr (projr (compute_exterior d old))"
  by (simp add: compute_exterior_def Let_def)

theorem compute_exterior_faces_witness:
  "num_simplices (projr (compute_exterior 1 [[0, 1, 2], [1, 2, 3]])) = 5
   \<and> indices (exterior_derivative (projr (compute_exterior 1 [[0, 1, 2], [1, 2, 3]]))) ! 5 =
       indices (exterior_derivative (projr (compute_exterior 1 [[0, 1, 2], [1, 2, 3]]))) ! 0
   \<and> data (exterior_derivative (projr (compute_exterior 1 [[0, 1, 2], [1, 2, 3]]))) ! 4 = - 1
   \<and> csr_get (exterior_derivative (projr (compute_exterior 1 [[0, 1, 2], [1, 2, 3]]))) 1
        (indices (exterior_derivative (projr (compute_exterior 1 [[0, 1, 2], [1, 2, 3]]))) ! 4)
       = - 1
   \<and> indices (exterior_derivative (projr (compute_exterior 1 [[0, 1, 2], [1, 2, 3]]))) ! 3 = 3
   \<and> simplices (projr (compute_exterior 1 [[0, 1, 2], [1, 2, 3]])) ! 3 = [2, 3]"
proof -
  let ?old = "[[0, 1, 2], [1, 2, 3 :: nat]]"
  let ?sk = "projr (compute_exterior 1 ?old)"
  let ?E = "exterior_derivative ?sk"
  have ce: "compute_exterior 1 ?old = Inr ?sk" by (rule compute_exterior_total) simp
  have rect: "\<forall>s\<in>set ?old. length s = 3" by simp
  have m: "(3::nat) < 256" by simp
  note t = compute_exterior_faces [OF ce rect m]
  have card: "card (set ` set (all_faces 3 ?old)) = 5" by code_simp
  have same: "set (all_faces 3 ?old ! 5) = set (all_faces 3 ?old ! 0)" by code_simp
  from t card have a: "num_simplices ?sk = 5" by simp
  from t have "\<forall>p<length ?old * 3. \<forall>q<length ?old * 3.
      (indices ?E ! p = indices ?E ! q) =
      (set (all_faces 3 ?old ! p) = set (all_faces 3 ?old ! q))" by blast
  moreover have "(5::nat) < length ?old * 3" "(0::nat) < length ?old * 3" by simp_all
  ultimately have "(indices ?E ! 5 = indices ?E ! 0) =
      (set (all_faces 3 ?old ! 5) = set (all_faces 3 ?old ! 0))" by blast
  with same have b: "indices ?E ! 5 = indices ?E ! 0"
    by simp
  from t have rows: "\<forall>r<length ?old. \<forall>j<3.
      data ?E ! (r * 3 + j) = (- 1) ^ j
    \<and> (distinct (?old ! r) \<longrightarrow> csr_get ?E r (indices ?E ! (r * 3 + j)) = (- 1) ^ j)"
    by blast
  have r1: "(1::nat) < length ?old" "(1::nat) < 3" by simp_all
  from rows r1 have "data ?E ! (1 * 3 + 1) = (- 1) ^ (1::nat)" by blast
  then have c: "data ?E ! 4 = - 1" by simp
  have "distinct (?old ! 1)" by simp
  with rows r1 have "csr_get ?E 1 (indices ?E ! (1 * 3 + 1)) = (- 1) ^ (1::nat)" by blast
  then have d: "csr_get ?E 1 (indices ?E ! 4) = - 1" by simp
  from t have fresh: "\<forall>p<length ?old * 3.
      (\<forall>q<p. set (all_faces 3 ?old ! q) \<noteq> set (all_faces 3 ?old ! p)) \<longrightarrow>
        indices ?E ! p = card (set ` set (take p (all_faces 3 ?old)))
      \<and> simplices ?sk ! (indices ?E ! p) = all_faces 3 ?old ! p"
    by blast
  have first: "\<forall>q<3. set (all_faces 3 ?old ! q) \<noteq> set (all_faces 3 ?old ! 3)"
  proof (intro allI impI)
    fix q :: nat assume "q < 3"
    then have "q = 0 \<or> q = 1 \<or> q = 2" by auto
    moreover have "set (all_faces 3 ?old ! 0) \<noteq> set (all_faces 3 ?old ! 3)"
      "set (all_faces 3 ?old ! 1) \<noteq> set (all_faces 3 ?old ! 3)"
      "set (all_faces 3 ?old ! 2) \<noteq> set (all_faces 3 ?old ! 3)"
      by code_simp+
    ultimately show "set (all_faces 3 ?old ! q) \<noteq> set (all_faces 3 ?old ! 3)" by blast
  qed
  have "(3::nat) < length ?old * 3" by simp
  with fresh first have f: "indices ?E ! 3 = card (set ` set (take 3 (all_faces 3 ?old)))"
    "simplices ?sk ! (indices ?E ! 3) = all_faces 3 ?old ! 3" by blast+
  have c3: "card (set ` set (take 3 (all_faces 3 ?old))) = 3" by code_simp
  have f3: "all_faces 3 ?old ! 3 = [2, 3]" by code_simp
  from f(1) c3 have e1: "indices ?E ! 3 = 3" by (rule trans)
  from f(2) have "simplices ?sk ! 3 = all_faces 3 ?old ! 3" unfolding e1 .
  then have e2: "simplices ?sk ! 3 = [2, 3]" using f3 by (rule trans)
  note e = e1 e2
  from a b c d e show ?thesis by blast
qed

section \<open>The constructor's sort\<close>

text \<open>
  C6, as the specification states it, fails: the constructor does not put the rows in
  lexicographic order, and it changes the vertex order within a row. For the array with the
  rows \<open>[2, 3]\<close> and \<open>[1, 0]\<close> the constructor holds the rows \<open>[2, 3]\<close> and \<open>[0, 1]\<close>,
  where sorting the rows lexicographically gives \<open>[1, 0]\<close> and \<open>[2, 3]\<close>.
\<close>

theorem init_lexicographic_sort_counterexample:
  "map_option (map_sum id (unstitched \<circ> top_sk))
     (SimplicialComplex_init \<lparr>rows = [[2, 3], [1, 0]], columns = 2\<rparr>
        [[0, 0], [1, 0], [0, 1], [1, 1]] Map.empty) = Some (Inr [[2, 3], [0, 1]])
   \<and> lexicographic_row_sort [[2, 3], [1, 0]] = [[1, 0], [2, 3]]"
  by (simp add: SimplicialComplex_init_def ndarray_sort_def stitch_empty Let_def
        lexicographic_row_sort_def)

text \<open>
  C6, amended. The constructor sorts the vertex indices within every row of the input array
  into ascending order and leaves the rows in the order of the input: row \<open>i\<close> of the array
  it keeps is row \<open>i\<close> of the input, sorted. The simplices of the top skeleton are these rows,
  stitched.
\<close>

theorem init_sorts_within_rows:
  assumes "SimplicialComplex_init arr verts st = Some (Inr cx)"
  shows "length (unstitched (top_sk cx)) = length (rows arr)
       \<and> (\<forall>i<length (rows arr).
            sorted (unstitched (top_sk cx) ! i)
          \<and> mset (unstitched (top_sk cx) ! i) = mset (rows arr ! i))
       \<and> those (map (\<lambda>s. stitch s st) (unstitched (top_sk cx))) = Some (simplices (top_sk cx))"
  using assms
  by (auto simp: SimplicialComplex_init_def Let_def ndarray_sort_def
           split: option.splits if_splits)

theorem init_sorts_within_rows_witness:
  "\<exists>cx. SimplicialComplex_init \<lparr>rows = [[2, 3], [1, 0]], columns = 2\<rparr>
           [[0, 0], [1, 0], [0, 1], [1, 1]] Map.empty = Some (Inr cx)
        \<and> sorted (unstitched (top_sk cx) ! 1)
        \<and> mset (unstitched (top_sk cx) ! 1) = mset [1, 0]"
proof -
  have "\<exists>cx. SimplicialComplex_init \<lparr>rows = [[2, 3], [1, 0]], columns = 2\<rparr>
           [[0, 0], [1, 0], [0, 1], [1, 1]] Map.empty = Some (Inr cx)"
    by (simp add: SimplicialComplex_init_def ndarray_sort_def stitch_empty Let_def)
  then obtain cx where h: "SimplicialComplex_init \<lparr>rows = [[2, 3], [1, 0]], columns = 2\<rparr>
           [[0, 0], [1, 0], [0, 1], [1, 1]] Map.empty = Some (Inr cx)"
    by blast
  from init_sorts_within_rows [OF h]
  have "\<forall>i<length [[2, 3], [1, 0::nat]].
          sorted (unstitched (top_sk cx) ! i)
        \<and> mset (unstitched (top_sk cx) ! i) = mset ([[2, 3], [1, 0]] ! i)"
    by simp
  moreover have "(1::nat) < length [[2, 3], [1, 0::nat]]" by simp
  ultimately have "sorted (unstitched (top_sk cx) ! 1)
        \<and> mset (unstitched (top_sk cx) ! 1) = mset ([[2, 3], [1, 0]] ! 1)"
    by blast
  with h show ?thesis by auto
qed

section \<open>Unknown attributes\<close>

text \<open>
  C9. \<open>__getattr__\<close> of a skeleton and of a complex raise \<open>AttributeError\<close> for every name
  that is not one of the fields they compute, and for no other name: the exception is the
  result of the access, and no value is returned in its place.
\<close>

theorem unknown_attribute_raises:
  "(attr \<notin> set skeleton_lazy_fields \<longrightarrow>
      Skeleton_getattr attr = Inl (AttributeError (attr @ '' not found'')))
   \<and> (attr \<in> set skeleton_lazy_fields \<longrightarrow> (\<exists>f. Skeleton_getattr attr = Inr f))
   \<and> (attr \<notin> set complex_lazy_fields \<longrightarrow>
      SimplicialComplex_getattr attr = Inl (AttributeError (attr @ '' not found'')))
   \<and> (attr \<in> set complex_lazy_fields \<longrightarrow> (\<exists>f. SimplicialComplex_getattr attr = Inr f))"
  by (simp add: Skeleton_getattr_def SimplicialComplex_getattr_def skeleton_lazy_fields_def
        complex_lazy_fields_def)

theorem unknown_attribute_raises_witness:
  "Skeleton_getattr ''volume'' = Inl (AttributeError ''volume not found'')
   \<and> SimplicialComplex_getattr ''volume'' = Inl (AttributeError ''volume not found'')
   \<and> (\<exists>f. Skeleton_getattr ''star'' = Inr f)
   \<and> (\<exists>f. SimplicialComplex_getattr ''barycentric_gradients'' = Inr f)"
proof -
  have a: "''volume'' \<notin> set skeleton_lazy_fields" "''volume'' \<notin> set complex_lazy_fields"
    by (simp_all add: skeleton_lazy_fields_def complex_lazy_fields_def)
  have b: "''star'' \<in> set skeleton_lazy_fields"
    "''barycentric_gradients'' \<in> set complex_lazy_fields"
    by (simp_all add: skeleton_lazy_fields_def complex_lazy_fields_def)
  from a unknown_attribute_raises [of "''volume''"]
  have "Skeleton_getattr ''volume'' = Inl (AttributeError ''volume not found'')"
    "SimplicialComplex_getattr ''volume'' = Inl (AttributeError ''volume not found'')"
    by simp_all
  moreover from b(1) unknown_attribute_raises [of "''star''"]
  have "\<exists>f. Skeleton_getattr ''star'' = Inr f" by blast
  moreover from b(2) unknown_attribute_raises [of "''barycentric_gradients''"]
  have "\<exists>f. SimplicialComplex_getattr ''barycentric_gradients'' = Inr f" by blast
  ultimately show ?thesis by blast
qed

section \<open>The skeleta below the top one\<close>

lemma skeleton_below_Suc_Inr:
  "skeleton_below sk (Suc n) = Inr lo \<Longrightarrow>
   \<exists>hi. skeleton_below sk n = Inr hi \<and> compute_exterior (dim hi - 1) (simplices hi) = Inr lo"
  by (auto split: sum.splits)

lemma compute_exterior_shape:
  assumes "compute_exterior d old = Inr sk"
  shows "shape (exterior_derivative sk) = (length old, num_simplices sk)"
    and "length (simplices sk) = num_simplices sk"
  using compute_exterior_inv [OF assms] compute_exterior_state(3) [OF assms]
  unfolding dedup_inv_def state_of_sel by simp_all

lemma in_all_faces:
  "f \<in> set (all_faces m old) \<longleftrightarrow> (\<exists>s\<in>set old. \<exists>j<m. f = delete_vertex s j)"
proof
  assume "f \<in> set (all_faces m old)"
  then obtain s where "s \<in> set old" "f \<in> set (map (delete_vertex s) [0..<m])"
    unfolding all_faces_def by auto
  then show "\<exists>s\<in>set old. \<exists>j<m. f = delete_vertex s j" by fastforce
next
  assume "\<exists>s\<in>set old. \<exists>j<m. f = delete_vertex s j"
  then obtain s j where "s \<in> set old" "j < m" "f = delete_vertex s j" by blast
  then have "f \<in> set (map (delete_vertex s) [0..<m])" by simp
  with \<open>s \<in> set old\<close> show "f \<in> set (all_faces m old)"
    unfolding all_faces_def by auto
qed

lemma length_delete_vertex: "j < length s \<Longrightarrow> length (delete_vertex s j) = length s - 1"
  by (simp add: delete_vertex_def)

lemma compute_exterior_simplices:
  assumes ce: "compute_exterior d old = Inr sk"
    and rect: "\<forall>s\<in>set old. length s = m" and m: "m < 256"
  shows "\<forall>f\<in>set (simplices sk). \<exists>s\<in>set old. \<exists>j<m. f = delete_vertex s j"
    and "\<forall>f\<in>set (simplices sk). length f = m - 1"
    and "0 < m \<Longrightarrow> simplices sk \<noteq> []"
proof -
  have w: "width old = m"
    using compute_exterior_state(1) [OF ce] rect m by (rule width_uniform)
  from compute_exterior_inv [OF ce]
  have sub: "set (simplices sk) \<subseteq> set (all_faces m old)"
    and sup: "set ` set (all_faces m old) \<subseteq> set ` set (simplices sk)"
    unfolding dedup_inv_def state_of_sel w by blast+
  show a: "\<forall>f\<in>set (simplices sk). \<exists>s\<in>set old. \<exists>j<m. f = delete_vertex s j"
    using sub by (auto simp: in_all_faces)
  show "\<forall>f\<in>set (simplices sk). length f = m - 1"
  proof
    fix f assume "f \<in> set (simplices sk)"
    with a obtain s j where "s \<in> set old" "j < m" "f = delete_vertex s j" by blast
    with rect show "length f = m - 1" by (simp add: length_delete_vertex)
  qed
  show "simplices sk \<noteq> []" if "0 < m"
  proof -
    from compute_exterior_state(1) [OF ce] obtain s where "s \<in> set old" by (cases old) auto
    with that have "delete_vertex s 0 \<in> set (all_faces m old)" by (auto simp: in_all_faces)
    with sup show ?thesis by auto
  qed
qed

lemma skeleton_below_ok:
  assumes "simplices sk \<noteq> []" and "\<forall>s\<in>set (simplices sk). length s = m" and "m < 256"
    and "n < m"
  shows "\<exists>lo. skeleton_below sk n = Inr lo \<and> simplices lo \<noteq> []
            \<and> (\<forall>s\<in>set (simplices lo). length s = m - n) \<and> dim lo = dim sk - int n"
  using assms(4)
proof (induction n)
  case 0
  with assms show ?case by simp
next
  case (Suc n)
  from Suc.prems have "n < m" by simp
  from Suc.IH [OF this] obtain hi where hi: "skeleton_below sk n = Inr hi" "simplices hi \<noteq> []"
    "\<forall>s\<in>set (simplices hi). length s = m - n" "dim hi = dim sk - int n"
    by blast
  from compute_exterior_total [OF hi(2)] obtain lo where
    ce: "compute_exterior (dim hi - 1) (simplices hi) = Inr lo"
    by blast
  have mn: "m - n < 256" "0 < m - n" using assms(3) Suc.prems by simp_all
  note s = compute_exterior_simplices [OF ce hi(3) mn(1)]
  have "skeleton_below sk (Suc n) = Inr lo" using hi(1) ce by simp
  moreover have "simplices lo \<noteq> []" using s(3) mn(2) by simp
  moreover have "\<forall>s\<in>set (simplices lo). length s = m - Suc n" using s(2) by simp
  moreover have "dim lo = dim sk - int (Suc n)"
    using compute_exterior_state(4) [OF ce] hi(4) by simp
  ultimately show ?case by blast
qed

lemma skeleton_below_lengths:
  assumes "\<forall>s\<in>set (simplices sk). length s = m" and "m < 256"
    and "skeleton_below sk n = Inr lo"
  shows "\<forall>s\<in>set (simplices lo). length s = m - n"
  using assms(3)
proof (induction n arbitrary: lo)
  case 0
  with assms show ?case by simp
next
  case (Suc n)
  from skeleton_below_Suc_Inr [OF Suc.prems] obtain hi where
    hi: "skeleton_below sk n = Inr hi" and ce: "compute_exterior (dim hi - 1) (simplices hi) = Inr lo"
    by blast
  have "m - n < 256" using assms(2) by simp
  from compute_exterior_simplices(2) [OF ce Suc.IH [OF hi] this] show ?case by simp
qed

lemma skeleton_below_faces:
  assumes "\<forall>s\<in>set (simplices sk). Q s" and "\<And>s j. Q s \<Longrightarrow> Q (delete_vertex s j)"
    and "\<forall>s\<in>set (simplices sk). length s = m" and "m < 256"
    and "skeleton_below sk n = Inr lo"
  shows "\<forall>s\<in>set (simplices lo). Q s"
  using assms(5)
proof (induction n arbitrary: lo)
  case 0
  with assms(1) show ?case by simp
next
  case (Suc n)
  from skeleton_below_Suc_Inr [OF Suc.prems] obtain hi where
    hi: "skeleton_below sk n = Inr hi" and ce: "compute_exterior (dim hi - 1) (simplices hi) = Inr lo"
    by blast
  have "m - n < 256" using assms(4) by simp
  from compute_exterior_simplices(1) [OF ce skeleton_below_lengths [OF assms(3,4) hi] this]
  have faces: "\<forall>f\<in>set (simplices lo). \<exists>s\<in>set (simplices hi). \<exists>j<m - n. f = delete_vertex s j" .
  show ?case
  proof
    fix f assume "f \<in> set (simplices lo)"
    with faces obtain s j where s: "s \<in> set (simplices hi)" and f: "f = delete_vertex s j"
      by blast
    from Suc.IH [OF hi] s have "Q s" by simp
    then show "Q f" unfolding f by (rule assms(2))
  qed
qed

section \<open>Boundary and interior partition the indices\<close>

lemma those_map_nth:
  "those (map f xs) = Some ys \<Longrightarrow> i < length xs \<Longrightarrow> f (xs ! i) = Some (ys ! i)"
proof (induction xs arbitrary: ys i)
  case Nil
  then show ?case by simp
next
  case (Cons x xs)
  then show ?case by (cases i) (auto split: option.splits)
qed

lemma stitch_length: "stitch s st = Some s' \<Longrightarrow> length s' = length s"
  unfolding stitch_def by (drule those_map_Some_length) simp

lemma init_fields:
  assumes "SimplicialComplex_init arr verts st = Some (Inr cx)"
  shows "complex_dimension cx = int (columns arr) - 1"
    and "boundary (top_sk cx) = []"
    and "interior (top_sk cx) = [0..<length (rows arr)]"
    and "num_simplices (top_sk cx) = length (rows arr)"
    and "those (map (\<lambda>s. stitch s st) (map sort (rows arr))) = Some (simplices (top_sk cx))"
    and "dim (top_sk cx) = int (columns arr) - 1"
  using assms
  by (auto simp: SimplicialComplex_init_def Let_def ndarray_sort_def
           split: option.splits if_splits)

lemma init_simplices:
  assumes init: "SimplicialComplex_init arr verts st = Some (Inr cx)"
  shows "length (simplices (top_sk cx)) = length (rows arr)"
    and "\<forall>i<length (rows arr). stitch (sort (rows arr ! i)) st = Some (simplices (top_sk cx) ! i)"
    and "\<forall>s\<in>set (rows arr). length s = m \<Longrightarrow> \<forall>s\<in>set (simplices (top_sk cx)). length s = m"
proof -
  note t = init_fields(5) [OF init]
  from those_map_Some_length [OF t] show len: "length (simplices (top_sk cx)) = length (rows arr)"
    by simp
  show nth: "\<forall>i<length (rows arr). stitch (sort (rows arr ! i)) st = Some (simplices (top_sk cx) ! i)"
    using those_map_nth [OF t] by simp
  show "\<forall>s\<in>set (simplices (top_sk cx)). length s = m" if rect: "\<forall>s\<in>set (rows arr). length s = m"
  proof
    fix s assume "s \<in> set (simplices (top_sk cx))"
    then obtain i where i: "i < length (rows arr)" "s = simplices (top_sk cx) ! i"
      using len by (auto simp: in_set_conv_nth)
    with nth have "stitch (sort (rows arr ! i)) st = Some s" by simp
    from stitch_length [OF this] rect i show "length s = m" by simp
  qed
qed

lemma truncate_sel:
  "simplices (skeleton.truncate t) = simplices t"
  "dim (skeleton.truncate t) = dim t"
  "num_simplices (skeleton.truncate t) = num_simplices t"
  "exterior_derivative (skeleton.truncate t) = exterior_derivative t"
  "simplex_to_index (skeleton.truncate t) = simplex_to_index t"
  by (simp_all add: skeleton.truncate_def)

lemma set_nonzero: "set (nonzero v) = {i. i < length v \<and> v ! i}"
  by (auto simp: nonzero_def)

lemma length_abs_column_sums: "length (abs_column_sums M sel) = snd (shape M)"
  by (simp add: abs_column_sums_def)

lemma boundary_below_total:
  "\<forall>k\<le>n. \<exists>lo. skeleton_below (skeleton.truncate (top_sk cx)) k = Inr lo \<Longrightarrow>
   \<exists>b. boundary_below cx n = Inr b"
proof (induction cx n rule: boundary_below.induct)
  case (1 cx)
  then show ?case by simp
next
  case (2 cx)
  then obtain lo where "skeleton_below (skeleton.truncate (top_sk cx)) (Suc 0) = Inr lo"
    by blast
  then show ?case by simp
next
  case (3 cx n)
  from "3.prems" have "\<forall>k\<le>Suc n. \<exists>lo. skeleton_below (skeleton.truncate (top_sk cx)) k = Inr lo"
    by simp
  from "3.IH" [OF this] obtain old where old: "boundary_below cx (Suc n) = Inr old" by blast
  from "3.prems" obtain lo where
    lo: "skeleton_below (skeleton.truncate (top_sk cx)) (Suc (Suc n)) = Inr lo"
    by blast
  show ?case
    unfolding boundary_below.simps(3) old lo by simp
qed

lemma boundary_below_bound:
  assumes lo: "skeleton_below (skeleton.truncate (top_sk cx)) (Suc n) = Inr lo"
    and b: "boundary_below cx (Suc n) = Inr b"
  shows "set b \<subseteq> {0..<num_simplices lo}"
proof -
  from skeleton_below_Suc_Inr [OF lo] obtain hi :: skeleton where
    ce: "compute_exterior (dim hi - 1) (simplices hi) = Inr lo" by blast
  have cols: "snd (shape (exterior_derivative lo)) = num_simplices lo"
    using compute_exterior_shape(1) [OF ce] by simp
  show ?thesis
  proof (cases n)
    case 0
    with b lo have "b = nonzero (map (\<lambda>x. x mod 2 = 1)
        (abs_column_sums (exterior_derivative lo) [0..<fst (shape (exterior_derivative lo))]))"
      by simp
    then show ?thesis by (auto simp: set_nonzero length_abs_column_sums cols)
  next
    case (Suc k)
    with b lo have "b = [] \<or> (\<exists>sel. b = nonzero (map (\<lambda>x. x \<noteq> 0)
        (abs_column_sums (exterior_derivative lo) sel)))"
      by (auto split: sum.splits if_splits)
    then show ?thesis by (auto simp: set_nonzero length_abs_column_sums cols)
  qed
qed

lemma init_chain:
  assumes init: "SimplicialComplex_init arr verts st = Some (Inr cx)"
    and ne: "rows arr \<noteq> []" and rect: "\<forall>s\<in>set (rows arr). length s = columns arr"
    and small: "columns arr < 256" and n: "n < columns arr"
  shows "\<exists>lo. skeleton_below (skeleton.truncate (top_sk cx)) n = Inr lo \<and> simplices lo \<noteq> []
            \<and> (\<forall>s\<in>set (simplices lo). length s = columns arr - n)"
proof -
  let ?T = "skeleton.truncate (top_sk cx)"
  have "simplices ?T \<noteq> []"
    using init_simplices(1) [OF init] ne by (auto simp: truncate_sel)
  moreover have "\<forall>s\<in>set (simplices ?T). length s = columns arr"
    using init_simplices(3) [OF init rect] by (simp add: truncate_sel)
  ultimately show ?thesis
    using skeleton_below_ok [of ?T "columns arr" n] small n by blast
qed

text \<open>
  C2. For a complex built from an array with at least one row, and for every dimension
  \<open>d\<close> of the complex, the skeleton \<open>complex[d]\<close>, its \<open>boundary\<close> and its \<open>interior\<close>
  are computed without an exception, the two index lists have no index in common, and
  together they hold exactly the indices \<open>0 ..< num_simplices\<close>.
\<close>

theorem boundary_interior_partition:
  assumes init: "SimplicialComplex_init arr verts st = Some (Inr cx)"
    and ne: "rows arr \<noteq> []" and rect: "\<forall>s\<in>set (rows arr). length s = columns arr"
    and small: "columns arr < 256" and d: "d < columns arr"
  shows "\<exists>sk b i. getitem cx d = Inr sk \<and> Skeleton_boundary cx d = Inr b
           \<and> Skeleton_interior cx d = Inr i
           \<and> set b \<inter> set i = {} \<and> set b \<union> set i = {0..<num_simplices sk}"
proof -
  let ?T = "skeleton.truncate (top_sk cx)"
  let ?D = "columns arr - 1"
  let ?n = "?D - d"
  have D: "nat (complex_dimension cx) = ?D"
    using init_fields(1) [OF init] d by simp
  have nd: "\<not> ?D < d" using d by simp
  have n: "?n < columns arr" using d by simp
  from init_chain [OF init ne rect small n] obtain lo where
    lo: "skeleton_below ?T ?n = Inr lo" by blast
  have "\<forall>k\<le>?n. \<exists>lo. skeleton_below ?T k = Inr lo"
  proof (intro allI impI)
    fix k assume "k \<le> ?n"
    with n have "k < columns arr" by simp
    from init_chain [OF init ne rect small this]
    show "\<exists>lo. skeleton_below ?T k = Inr lo" by blast
  qed
  from boundary_below_total [OF this] obtain b where b: "boundary_below cx ?n = Inr b"
    by blast
  have g: "getitem cx d = Inr lo" using lo nd by (simp add: getitem_def D Let_def)
  have gb: "Skeleton_boundary cx d = Inr b" using b nd by (simp add: Skeleton_boundary_def D Let_def)
  show ?thesis
  proof (cases ?n)
    case 0
    with lo have lo_top: "lo = ?T" by simp
    from 0 b have b0: "b = []" using init_fields(2) [OF init] by simp
    have "Skeleton_interior cx d = Inr [0..<length (rows arr)]"
      using 0 nd init_fields(3) [OF init]
      by (simp add: Skeleton_interior_def interior_below_def D Let_def)
    moreover have "num_simplices lo = length (rows arr)"
      using lo_top init_fields(4) [OF init] by (simp add: truncate_sel)
    ultimately show ?thesis using g gb b0 by auto
  next
    case (Suc k)
    from boundary_below_bound [OF lo [unfolded Suc] b [unfolded Suc]]
    have sub: "set b \<subseteq> {0..<num_simplices lo}" .
    let ?i = "sorted_list_of_set (set [0..<num_simplices lo] - set b)"
    have "interior_below cx ?n = Inr ?i"
      using Suc lo b by (simp add: interior_below_def)
    then have gi: "Skeleton_interior cx d = Inr ?i"
      using nd by (simp add: Skeleton_interior_def D Let_def)
    have "set ?i = {0..<num_simplices lo} - set b" by simp
    with sub have "set b \<inter> set ?i = {}" "set b \<union> set ?i = {0..<num_simplices lo}"
      by auto
    with g gb gi show ?thesis by blast
  qed
qed

theorem boundary_interior_partition_witness:
  "\<exists>cx sk b i.
     SimplicialComplex_init \<lparr>rows = [[0, 1, 2], [1, 2, 3]], columns = 3\<rparr>
       [[0, 0], [1, 0], [0, 1], [1, 1]] Map.empty = Some (Inr cx)
   \<and> getitem cx 1 = Inr sk \<and> Skeleton_boundary cx 1 = Inr b \<and> Skeleton_interior cx 1 = Inr i
   \<and> set b \<inter> set i = {} \<and> set b \<union> set i = {0..<num_simplices sk}"
proof -
  let ?arr = "\<lparr>rows = [[0, 1, 2], [1, 2, 3]], columns = 3\<rparr>"
  have "\<exists>cx. SimplicialComplex_init ?arr [[0, 0], [1, 0], [0, 1], [1, 1]] Map.empty = Some (Inr cx)"
    by (simp add: SimplicialComplex_init_def ndarray_sort_def stitch_empty Let_def)
  then obtain cx where h: "SimplicialComplex_init ?arr
      [[0, 0], [1, 0], [0, 1], [1, 1]] Map.empty = Some (Inr cx)"
    by blast
  have "rows ?arr \<noteq> []" "\<forall>s\<in>set (rows ?arr). length s = columns ?arr"
    "columns ?arr < 256" "1 < columns ?arr"
    by simp_all
  from boundary_interior_partition [OF h this] h show ?thesis by blast
qed

section \<open>Which simplices are on the boundary\<close>

lemma abs_csr_get_exterior:
  assumes ce: "compute_exterior d old = Inr lo"
    and rect: "\<forall>s\<in>set old. length s = m" and m: "m < 256"
    and r: "r < length old" and dist: "distinct (old ! r)" and i: "i < num_simplices lo"
  shows "\<bar>csr_get (exterior_derivative lo) r i\<bar> =
           (if face_of (simplices lo ! i) (old ! r) then 1 else 0)"
proof -
  have len: "length (old ! r) = m" using rect r by simp
  from compute_exterior_inv [OF ce]
  have idx: "\<And>k i. simplex_to_index lo k = Some i \<longleftrightarrow>
                i < length (simplices lo) \<and> set (simplices lo ! i) = k"
    unfolding dedup_inv_def state_of_sel by blast
  have i': "i < length (simplices lo)" using compute_exterior_shape(2) [OF ce] i by simp
  have cond: "(simplex_to_index lo (set (delete_vertex (old ! r) j)) = Some i) =
              (set (delete_vertex (old ! r) j) = set (simplices lo ! i))" for j
    using idx i' by auto
  have get: "csr_get (exterior_derivative lo) r i =
          (\<Sum>j\<leftarrow>[0..<m]. if set (delete_vertex (old ! r) j) = set (simplices lo ! i)
                          then (- 1) ^ j else 0)"
    unfolding csr_get_exterior [OF ce rect m r] cond ..
  show ?thesis
  proof (cases "face_of (simplices lo ! i) (old ! r)")
    case True
    then obtain j0 where j0: "j0 < m" "set (delete_vertex (old ! r) j0) = set (simplices lo ! i)"
      unfolding face_of_def len by blast
    have "(set (delete_vertex (old ! r) j) = set (simplices lo ! i)) = (j = j0)" if "j < m" for j
      using delete_vertex_inj [OF dist, of j j0] that j0 len by auto
    then have "csr_get (exterior_derivative lo) r i =
          (\<Sum>j\<leftarrow>[0..<m]. if j = j0 then (- 1) ^ j else 0)"
      unfolding get
      by (intro arg_cong [where f = sum_list] map_cong [OF refl]) simp
    then have "csr_get (exterior_derivative lo) r i = (- 1) ^ j0"
      using j0(1) by (simp add: sum_list_delta)
    with True show ?thesis by simp
  next
    case False
    then have "set (delete_vertex (old ! r) j) \<noteq> set (simplices lo ! i)" if "j < m" for j
      unfolding face_of_def len using that by blast
    then have "csr_get (exterior_derivative lo) r i = (\<Sum>j\<leftarrow>[0..<m]. 0)"
      unfolding get
      by (intro arg_cong [where f = sum_list] map_cong [OF refl]) simp
    with False show ?thesis by simp
  qed
qed

lemma sum_list_indicator:
  "(\<Sum>r\<leftarrow>sel. if P r then 1 else (0::int)) = int (length (filter P sel))"
  by (induction sel) simp_all

lemma abs_column_sums_exterior:
  assumes ce: "compute_exterior d old = Inr lo"
    and rect: "\<forall>s\<in>set old. length s = m" and m: "m < 256"
    and sel: "\<forall>r\<in>set sel. r < length old \<and> distinct (old ! r)" and i: "i < num_simplices lo"
  shows "abs_column_sums (exterior_derivative lo) sel ! i =
           int (length (filter (\<lambda>r. face_of (simplices lo ! i) (old ! r)) sel))"
proof -
  have "abs_column_sums (exterior_derivative lo) sel ! i =
          (\<Sum>r\<leftarrow>sel. \<bar>csr_get (exterior_derivative lo) r i\<bar>)"
    using i compute_exterior_shape(1) [OF ce] by (simp add: abs_column_sums_def)
  also have "\<dots> = (\<Sum>r\<leftarrow>sel. if face_of (simplices lo ! i) (old ! r) then 1 else 0)"
    using sel
    by (intro arg_cong [where f = sum_list] map_cong [OF refl])
       (simp add: abs_csr_get_exterior [OF ce rect m _ _ i])
  finally show ?thesis by (simp add: sum_list_indicator)
qed

lemma length_filter_upt: "length (filter P [0..<n]) = card {r. r < n \<and> P r}"
proof -
  have "distinct (filter P [0..<n])" by simp
  then have "card (set (filter P [0..<n])) = length (filter P [0..<n])"
    by (rule distinct_card)
  moreover have "set (filter P [0..<n]) = {r. r < n \<and> P r}" by auto
  ultimately show ?thesis by simp
qed

lemma distinct_delete_vertex: "distinct s \<Longrightarrow> distinct (delete_vertex s j)"
proof -
  assume d: "distinct s"
  then have "distinct (take j s @ drop j s)" by simp
  then have disj: "set (take j s) \<inter> set (drop j s) = {}" by (simp only: distinct_append)
  have "set (drop (Suc j) s) \<subseteq> set (drop j s)"
    by (rule set_drop_subset_set_drop) simp
  with disj have "set (take j s) \<inter> set (drop (Suc j) s) = {}" by blast
  with d show ?thesis by (simp add: delete_vertex_def)
qed

lemma set_nonzero_map: "set (nonzero (map P v)) = {i. i < length v \<and> P (v ! i)}"
  by (auto simp: set_nonzero)

text \<open>
  C4. Let the complex be built from an array with at least one row whose stitched rows
  have distinct vertices, and let \<open>d\<close> be below the complex dimension. For
  \<open>d = complex_dimension - 1\<close> the absolute column sum of the exterior derivative at a face
  is the number of top simplices the face belongs to, and \<open>boundary\<close> holds exactly the
  faces for which that number is odd. For a lower \<open>d\<close>, \<open>boundary\<close> holds exactly the
  simplices that are a face of a simplex in the boundary of the skeleton one dimension
  higher, and it is empty when that boundary is empty.
\<close>

theorem boundary_classification:
  assumes init: "SimplicialComplex_init arr verts st = Some (Inr cx)"
    and ne: "rows arr \<noteq> []" and rect: "\<forall>s\<in>set (rows arr). length s = columns arr"
    and small: "columns arr < 256"
    and dist: "\<forall>s\<in>set (simplices (top_sk cx)). distinct s"
    and d: "d + 1 < columns arr"
  shows "\<exists>hi lo old b.
           getitem cx (d + 1) = Inr hi \<and> getitem cx d = Inr lo
         \<and> Skeleton_boundary cx (d + 1) = Inr old \<and> Skeleton_boundary cx d = Inr b
         \<and> (int d = complex_dimension cx - 1 \<longrightarrow>
              (\<forall>i<num_simplices lo.
                 abs_column_sums (exterior_derivative lo) [0..<num_simplices hi] ! i =
                 int (card {r. r < num_simplices hi \<and> face_of (simplices lo ! i) (simplices hi ! r)}))
            \<and> set b = {i. i < num_simplices lo \<and>
                   odd (card {r. r < num_simplices hi \<and>
                                 face_of (simplices lo ! i) (simplices hi ! r)})})
         \<and> (int d < complex_dimension cx - 1 \<longrightarrow>
              set b = {i. i < num_simplices lo \<and>
                   (\<exists>r\<in>set old. face_of (simplices lo ! i) (simplices hi ! r))}
            \<and> (old = [] \<longrightarrow> b = []))"
proof -
  let ?T = "skeleton.truncate (top_sk cx)"
  let ?m = "columns arr"
  let ?D = "?m - 1"
  define n where "n = ?D - (d + 1)"
  have Dn: "?D - d = Suc n" using d by (simp add: n_def)
  have D: "nat (complex_dimension cx) = ?D" and cd: "complex_dimension cx = int ?m - 1"
    using init_fields(1) [OF init] d by simp_all
  have nd: "\<not> ?D < d" "\<not> ?D < d + 1" using d by simp_all
  have nm: "n < ?m" "Suc n < ?m" using d by (simp_all add: n_def)
  from init_chain [OF init ne rect small nm(1)] obtain hi where
    hi: "skeleton_below ?T n = Inr hi" and hi_len: "\<forall>s\<in>set (simplices hi). length s = ?m - n"
    by blast
  from init_chain [OF init ne rect small nm(2)] obtain lo where
    lo: "skeleton_below ?T (Suc n) = Inr lo" by blast
  from lo hi have ce: "compute_exterior (dim hi - 1) (simplices hi) = Inr lo" by simp
  have mn: "?m - n < 256" using small by simp
  have T_len: "\<forall>s\<in>set (simplices ?T). length s = ?m"
    using init_simplices(3) [OF init rect] by (simp add: truncate_sel)
  have T_dist: "\<forall>s\<in>set (simplices ?T). distinct s" using dist by (simp add: truncate_sel)
  have hi_dist: "\<forall>s\<in>set (simplices hi). distinct s"
    using skeleton_below_faces [of ?T distinct, OF T_dist distinct_delete_vertex T_len small hi] .
  have total: "\<exists>b. boundary_below cx k = Inr b" if "k \<le> Suc n" for k
  proof (rule boundary_below_total, intro allI impI)
    fix j assume "j \<le> k"
    with that nm have "j < ?m" by simp
    from init_chain [OF init ne rect small this]
    show "\<exists>lo. skeleton_below ?T j = Inr lo" by blast
  qed
  from total [of n] obtain old where old: "boundary_below cx n = Inr old" by auto
  from total [of "Suc n"] obtain b where b: "boundary_below cx (Suc n) = Inr b" by auto
  have g1: "getitem cx (d + 1) = Inr hi"
    using hi nd by (simp add: getitem_def D Let_def n_def)
  have g0: "getitem cx d = Inr lo"
    using lo nd Dn by (simp add: getitem_def D Let_def)
  have b1: "Skeleton_boundary cx (d + 1) = Inr old"
    using old nd by (simp add: Skeleton_boundary_def D Let_def n_def)
  have b0: "Skeleton_boundary cx d = Inr b"
    using b nd Dn by (simp add: Skeleton_boundary_def D Let_def)
  have cols: "snd (shape (exterior_derivative lo)) = num_simplices lo"
    and nrows: "fst (shape (exterior_derivative lo)) = length (simplices hi)"
    using compute_exterior_shape(1) [OF ce] by simp_all
  have count: "abs_column_sums (exterior_derivative lo) sel ! i =
           int (length (filter (\<lambda>r. face_of (simplices lo ! i) (simplices hi ! r)) sel))"
    if "\<forall>r\<in>set sel. r < length (simplices hi)" "i < num_simplices lo" for sel i
  proof (rule abs_column_sums_exterior [OF ce hi_len mn _ that(2)])
    show "\<forall>r\<in>set sel. r < length (simplices hi) \<and> distinct (simplices hi ! r)"
      using that(1) hi_dist by simp
  qed
  have partA: "(\<forall>i<num_simplices lo.
                 abs_column_sums (exterior_derivative lo) [0..<num_simplices hi] ! i =
                 int (card {r. r < num_simplices hi \<and> face_of (simplices lo ! i) (simplices hi ! r)}))
            \<and> set b = {i. i < num_simplices lo \<and>
                   odd (card {r. r < num_simplices hi \<and>
                                 face_of (simplices lo ! i) (simplices hi ! r)})}"
    if top: "int d = complex_dimension cx - 1"
  proof -
    from top cd d have n0: "n = 0" by (simp add: n_def)
    with hi have hiT: "hi = ?T" by simp
    have num_hi: "num_simplices hi = length (simplices hi)"
      using hiT init_fields(4) [OF init] init_simplices(1) [OF init] by (simp add: truncate_sel)
    have sums: "abs_column_sums (exterior_derivative lo) [0..<num_simplices hi] ! i =
                 int (card {r. r < num_simplices hi \<and> face_of (simplices lo ! i) (simplices hi ! r)})"
      if "i < num_simplices lo" for i
      using count [of "[0..<num_simplices hi]" i] that num_hi
      by (simp add: length_filter_upt)
    have "boundary_below cx (Suc 0) = Inr (nonzero (map (\<lambda>x. x mod 2 = 1)
        (abs_column_sums (exterior_derivative lo) [0..<num_simplices hi])))"
      unfolding boundary_below.simps(2) lo [unfolded n0] by (simp add: nrows num_hi)
    with b [unfolded n0] have "b = nonzero (map (\<lambda>x. x mod 2 = 1)
        (abs_column_sums (exterior_derivative lo) [0..<num_simplices hi]))"
      by simp
    then have "set b = {i. i < num_simplices lo \<and>
        abs_column_sums (exterior_derivative lo) [0..<num_simplices hi] ! i mod 2 = 1}"
      by (simp add: set_nonzero_map length_abs_column_sums cols)
    also have "\<dots> = {i. i < num_simplices lo \<and>
                   odd (card {r. r < num_simplices hi \<and>
                                 face_of (simplices lo ! i) (simplices hi ! r)})}"
      using sums by (auto simp: odd_iff_mod_2_eq_one) presburger+
    finally show ?thesis using sums by blast
  qed
  have partB: "set b = {i. i < num_simplices lo \<and>
                   (\<exists>r\<in>set old. face_of (simplices lo ! i) (simplices hi ! r))}
            \<and> (old = [] \<longrightarrow> b = [])"
    if low: "int d < complex_dimension cx - 1"
  proof -
    from low cd d obtain k where k: "n = Suc k" by (cases n) (auto simp: n_def)
    have "set old \<subseteq> {0..<num_simplices hi}"
      using boundary_below_bound [OF hi [unfolded k] old [unfolded k]] .
    moreover have "num_simplices hi = length (simplices hi)"
    proof -
      from skeleton_below_Suc_Inr [OF hi [unfolded k]] obtain hh :: skeleton where
        "compute_exterior (dim hh - 1) (simplices hh) = Inr hi" by blast
      from compute_exterior_shape(2) [OF this] show ?thesis by simp
    qed
    ultimately have sel: "\<forall>r\<in>set old. r < length (simplices hi)" by auto
    have "boundary_below cx (Suc (Suc k)) =
            (if old \<noteq> [] then Inr (nonzero (map (\<lambda>x. x \<noteq> 0)
                        (abs_column_sums (exterior_derivative lo) old))) else Inr [])"
      unfolding boundary_below.simps(3) old [unfolded k] lo [unfolded k] by simp
    with b [unfolded k]
    have bdef: "b = (if old \<noteq> [] then nonzero (map (\<lambda>x. x \<noteq> 0)
                        (abs_column_sums (exterior_derivative lo) old)) else [])"
      by (simp split: if_splits)
    show ?thesis
    proof (cases "old = []")
      case True
      with bdef show ?thesis by simp
    next
      case False
      with bdef have "set b = {i. i < num_simplices lo \<and>
          abs_column_sums (exterior_derivative lo) old ! i \<noteq> 0}"
        by (simp add: set_nonzero_map length_abs_column_sums cols)
      also have "\<dots> = {i. i < num_simplices lo \<and>
                   (\<exists>r\<in>set old. face_of (simplices lo ! i) (simplices hi ! r))}"
        using count [OF sel] by (auto simp: filter_empty_conv)
      finally show ?thesis using False by simp
    qed
  qed
  from g1 g0 b1 b0 partA partB show ?thesis by blast
qed

theorem boundary_classification_witness:
  "\<exists>cx. SimplicialComplex_init \<lparr>rows = [[0, 1, 2], [1, 2, 3]], columns = 3\<rparr>
       [[0, 0], [1, 0], [0, 1], [1, 1]] Map.empty = Some (Inr cx)
   \<and> (\<exists>hi lo old b.
         getitem cx 2 = Inr hi \<and> getitem cx 1 = Inr lo
       \<and> Skeleton_boundary cx 2 = Inr old \<and> Skeleton_boundary cx 1 = Inr b
       \<and> set b = {i. i < num_simplices lo \<and>
                  odd (card {r. r < num_simplices hi \<and>
                                face_of (simplices lo ! i) (simplices hi ! r)})})
   \<and> (\<exists>hi lo old b.
         getitem cx 1 = Inr hi \<and> getitem cx 0 = Inr lo
       \<and> Skeleton_boundary cx 1 = Inr old \<and> Skeleton_boundary cx 0 = Inr b
       \<and> set b = {i. i < num_simplices lo \<and>
                  (\<exists>r\<in>set old. face_of (simplices lo ! i) (simplices hi ! r))})"
proof -
  let ?arr = "\<lparr>rows = [[0, 1, 2], [1, 2, 3]], columns = 3\<rparr>"
  have "\<exists>cx. SimplicialComplex_init ?arr [[0, 0], [1, 0], [0, 1], [1, 1]] Map.empty = Some (Inr cx)
          \<and> simplices (top_sk cx) = [[0, 1, 2], [1, 2, 3]] \<and> complex_dimension cx = 2"
    by (simp add: SimplicialComplex_init_def ndarray_sort_def stitch_empty Let_def)
  then obtain cx where h: "SimplicialComplex_init ?arr
      [[0, 0], [1, 0], [0, 1], [1, 1]] Map.empty = Some (Inr cx)"
    and top: "simplices (top_sk cx) = [[0, 1, 2], [1, 2, 3]]"
    and cd: "complex_dimension cx = 2"
    by blast
  have hyps: "rows ?arr \<noteq> []" "\<forall>s\<in>set (rows ?arr). length s = columns ?arr"
    "columns ?arr < 256"
    by simp_all
  have dist: "\<forall>s\<in>set (simplices (top_sk cx)). distinct s" unfolding top by simp
  have d1: "1 + 1 < columns ?arr" and d0: "0 + 1 < columns ?arr" by simp_all
  have "int 1 = complex_dimension cx - 1" using cd by simp
  with boundary_classification [OF h hyps dist d1]
  have A: "\<exists>hi lo old b.
         getitem cx 2 = Inr hi \<and> getitem cx 1 = Inr lo
       \<and> Skeleton_boundary cx 2 = Inr old \<and> Skeleton_boundary cx 1 = Inr b
       \<and> set b = {i. i < num_simplices lo \<and>
                  odd (card {r. r < num_simplices hi \<and>
                                face_of (simplices lo ! i) (simplices hi ! r)})}"
    by (simp add: numeral_2_eq_2) blast
  have "int 0 < complex_dimension cx - 1" using cd by simp
  with boundary_classification [OF h hyps dist d0]
  have B: "\<exists>hi lo old b.
         getitem cx 1 = Inr hi \<and> getitem cx 0 = Inr lo
       \<and> Skeleton_boundary cx 1 = Inr old \<and> Skeleton_boundary cx 0 = Inr b
       \<and> set b = {i. i < num_simplices lo \<and>
                  (\<exists>r\<in>set old. face_of (simplices lo ! i) (simplices hi ! r))}"
    by simp blast
  from h A B show ?thesis by blast
qed

section \<open>The chains of compute\_dual\_cells\<close>

lemma dual_collect_all_Inr:
  "dual_collect c (map (\<lambda>i. Some (Inr (cells i))) xs) =
     Some (Inr (concat (map (\<lambda>i. map (\<lambda>(chain, index). (chain @ c, index)) (cells i)) xs)))"
  by (induction xs) simp_all

lemma dual_collect_last:
  "dual_collect [c] rs = Some (Inr res) \<Longrightarrow> \<forall>cell\<in>set res. fst cell \<noteq> [] \<and> last (fst cell) = c"
proof (induction rs arbitrary: res)
  case Nil
  then show ?case by simp
next
  case (Cons r rs)
  from Cons.prems obtain cells rest where rest: "dual_collect [c] rs = Some (Inr rest)"
    and res: "res = map (\<lambda>(old_circumcenters, index). (old_circumcenters @ [c], index)) cells @ rest"
    by (auto split: option.splits sum.splits)
  from Cons.IH [OF rest] have "\<forall>cell\<in>set rest. fst cell \<noteq> [] \<and> last (fst cell) = c" .
  moreover have "\<forall>cell\<in>set (map (\<lambda>(old_circumcenters, index). (old_circumcenters @ [c], index)) cells).
      fst cell \<noteq> [] \<and> last (fst cell) = c"
    by auto
  ultimately show ?case unfolding res by (metis Un_iff set_append)
qed

text \<open>
  C7, amended. For an unstitched simplex \<open>s\<close> of arity \<open>k + 1\<close> with circumcenter \<open>c\<close>:
  when \<open>p = k\<close>, \<open>compute_dual_cells\<close> returns the one chain \<open>[c]\<close> with the stitched
  index of \<open>s\<close>; otherwise it returns, face by face in deletion order, the dual cells of the
  faces at level \<open>p\<close> with \<open>c\<close> appended at the end of every chain and the index of every
  chain kept. Every chain it returns ends with \<open>c\<close>.
\<close>

theorem compute_dual_cells_appends:
  assumes p: "p < 256" and len: "0 < length s" "length s < 256"
    and k: "length s - 1 < length self"
    and c: "circumcenters (self ! (length s - 1)) s = Some c"
  shows "(p = length s - 1 \<longrightarrow> stitch s st = Some key \<longrightarrow>
            simplex_to_index (self ! (length s - 1)) (set key) = Some index \<longrightarrow>
            compute_dual_cells self st s p = Some (Inr [([c], index)]))
       \<and> (p \<noteq> length s - 1 \<longrightarrow>
            (\<forall>i<length s. compute_dual_cells self st (delete_vertex s i) p = Some (Inr (cells i))) \<longrightarrow>
            compute_dual_cells self st s p =
              Some (Inr (concat (map (\<lambda>i. map (\<lambda>(chain, index). (chain @ [c], index)) (cells i))
                                   [0..<length s]))))
       \<and> (\<forall>res. compute_dual_cells self st s p = Some (Inr res) \<longrightarrow>
            (\<forall>cell\<in>set res. fst cell \<noteq> [] \<and> last (fst cell) = c))"
proof -
  have k1: "length s mod 256 = length s" using len by simp
  have kk: "(length s mod 256 + 255) mod 256 = length s - 1"
  proof -
    obtain n where n: "length s = Suc n" using len(1) by (cases "length s") auto
    have "(Suc n + 255) mod 256 = (n + 256) mod 256" by simp
    also have "\<dots> = n mod 256" by (simp only: mod_add_self2)
    also have "\<dots> = n" using len(2) n by simp
    finally show ?thesis using n k1 by simp
  qed
  have unfold: "compute_dual_cells self st s p =
     (if p = length s - 1 then
        (case stitch s st of
           None \<Rightarrow> None
         | Some key \<Rightarrow>
            (case simplex_to_index (self ! p) (set key) of
               None \<Rightarrow> Some (Inl KeyError)
             | Some index \<Rightarrow> Some (Inr [([c], index)])))
      else dual_collect [c]
             (map (\<lambda>i. compute_dual_cells self st (delete_vertex s i) p) [0..<length s]))"
    using p k c kk by (subst compute_dual_cells.simps) (simp add: k1)
  have a: "compute_dual_cells self st s p = Some (Inr [([c], index)])"
    if "p = length s - 1" "stitch s st = Some key"
      "simplex_to_index (self ! (length s - 1)) (set key) = Some index"
    using that unfold by simp
  have b: "compute_dual_cells self st s p =
              Some (Inr (concat (map (\<lambda>i. map (\<lambda>(chain, index). (chain @ [c], index)) (cells i))
                                   [0..<length s])))"
    if "p \<noteq> length s - 1"
      "\<forall>i<length s. compute_dual_cells self st (delete_vertex s i) p = Some (Inr (cells i))"
  proof -
    have "map (\<lambda>i. compute_dual_cells self st (delete_vertex s i) p) [0..<length s] =
          map (\<lambda>i. Some (Inr (cells i))) [0..<length s]"
      using that(2) by simp
    with that(1) unfold show ?thesis by (simp add: dual_collect_all_Inr)
  qed
  have d: "\<forall>cell\<in>set res. fst cell \<noteq> [] \<and> last (fst cell) = c"
    if "compute_dual_cells self st s p = Some (Inr res)" for res
  proof (cases "p = length s - 1")
    case True
    with that unfold show ?thesis by (auto split: option.splits)
  next
    case False
    with that unfold have "dual_collect [c]
        (map (\<lambda>i. compute_dual_cells self st (delete_vertex s i) p) [0..<length s]) = Some (Inr res)"
      by simp
    then show ?thesis by (rule dual_collect_last)
  qed
  from a b d show ?thesis by blast
qed

text \<open>
  C7, as the specification states it, fails: the circumcenter of the simplex is not put in
  front of the chains of its faces. For the edge \<open>[0, 1]\<close> with circumcenter \<open>[1]\<close> and
  \<open>p = 0\<close>, the chains are \<open>[[2], [1]]\<close> and \<open>[[0], [1]]\<close>: the circumcenter of the vertex
  first, the circumcenter of the edge last.
\<close>

theorem compute_dual_cells_prepend_counterexample:
  "compute_dual_cells edge_complex Map.empty [0, 1] 0 =
     Some (Inr [([[2], [1]], 0), ([[0], [1]], 1)])"
  by code_simp

theorem compute_dual_cells_appends_witness:
  "compute_dual_cells edge_complex Map.empty [1] 0 = Some (Inr [([[2]], 0)])
   \<and> compute_dual_cells edge_complex Map.empty [0] 0 = Some (Inr [([[0]], 1)])
   \<and> compute_dual_cells edge_complex Map.empty [0, 1] 0 =
       Some (Inr [([[2], [1]], 0), ([[0], [1]], 1)])"
proof -
  have p: "(0::nat) < 256" by simp
  have a: "compute_dual_cells edge_complex Map.empty [1] 0 = Some (Inr [([[2]], 0)])"
  proof -
    have "0 < length [1::nat]" "length [1::nat] < 256" "length [1::nat] - 1 < length edge_complex"
      "circumcenters (edge_complex ! (length [1::nat] - 1)) [1] = Some [2]"
      "(0::nat) = length [1::nat] - 1" "stitch [1] Map.empty = Some [1]"
      "simplex_to_index (edge_complex ! (length [1::nat] - 1)) (set [1]) = Some 0"
      by (simp_all add: edge_complex_def stitch_empty)
    with compute_dual_cells_appends [OF p, of "[1]" edge_complex "[2]" Map.empty "[1]" 0]
    show ?thesis by blast
  qed
  have b: "compute_dual_cells edge_complex Map.empty [0] 0 = Some (Inr [([[0]], 1)])"
  proof -
    have "0 < length [0::nat]" "length [0::nat] < 256" "length [0::nat] - 1 < length edge_complex"
      "circumcenters (edge_complex ! (length [0::nat] - 1)) [0] = Some [0]"
      "(0::nat) = length [0::nat] - 1" "stitch [0] Map.empty = Some [0]"
      "simplex_to_index (edge_complex ! (length [0::nat] - 1)) (set [0]) = Some 1"
      by (simp_all add: edge_complex_def stitch_empty)
    with compute_dual_cells_appends [OF p, of "[0]" edge_complex "[0]" Map.empty "[0]" 1]
    show ?thesis by blast
  qed
  define cells :: "nat \<Rightarrow> int list dual_cells"
    where "cells i = (if i = 0 then [([[2]], 0)] else [([[0]], 1)])" for i
  have rec: "\<forall>i<length [0, 1::nat].
      compute_dual_cells edge_complex Map.empty (delete_vertex [0, 1] i) 0 = Some (Inr (cells i))"
    using a b by (auto simp: cells_def delete_vertex_def less_Suc_eq)
  have hyps: "0 < length [0, 1::nat]" "length [0, 1::nat] < 256"
    "length [0, 1::nat] - 1 < length edge_complex"
    "circumcenters (edge_complex ! (length [0, 1::nat] - 1)) [0, 1] = Some [1]"
    "(0::nat) \<noteq> length [0, 1::nat] - 1"
    by (simp_all add: edge_complex_def)
  from compute_dual_cells_appends [OF p hyps(1-4), of Map.empty _ _ cells] hyps(5) rec
  have "compute_dual_cells edge_complex Map.empty [0, 1] 0 =
          Some (Inr (concat (map (\<lambda>i. map (\<lambda>(chain, index). (chain @ [[1]], index)) (cells i))
                               [0..<length [0, 1::nat]])))"
    by blast
  then have "compute_dual_cells edge_complex Map.empty [0, 1] 0 =
       Some (Inr [([[2], [1]], 0), ([[0], [1]], 1)])"
    by (simp add: cells_def upt_rec)
  with a b show ?thesis by blast
qed

section \<open>Barycentric gradients\<close>

lemma gradients_first_row:
  assumes "compute_barycentric_gradients ar pts metric = Inr G"
  shows "G \<noteq> []" and "length (hd G) = length metric"
    and "hd G = map uminus (array_sum_axis0 ar (length metric) (tl G))"
    and "column_sums (length metric) G =
           map2 (-) (column_sums (length metric) (tl G))
                    (array_sum_axis0 ar (length metric) (tl G))"
proof -
  from assms obtain grads where
    G: "G = map uminus (array_sum_axis0 ar (length metric) grads) # grads"
    by (auto simp: compute_barycentric_gradients_def Let_def split: if_splits sum.splits)
  from G show "G \<noteq> []" and "length (hd G) = length metric"
    and "hd G = map uminus (array_sum_axis0 ar (length metric) (tl G))"
    by (simp_all add: array_sum_axis0_def)
  show "column_sums (length metric) G =
           map2 (-) (column_sums (length metric) (tl G))
                    (array_sum_axis0 ar (length metric) (tl G))"
    unfolding G list.sel column_sums_def array_sum_axis0_def map2_map_map
    by (rule map_cong [OF refl]) simp
qed

lemma parmap_values:
  "parmap f xs = Some (Inr ys) \<Longrightarrow> y \<in> set ys \<Longrightarrow> \<exists>x\<in>set xs. f x = Some (Inr y)"
proof (induction xs arbitrary: ys)
  case Nil
  then show ?case by simp
next
  case (Cons x xs)
  from Cons.prems(1) obtain y0 ys0 where f: "f x = Some (Inr y0)"
    and r: "parmap f xs = Some (Inr ys0)" and ys: "ys = y0 # ys0"
    by (auto split: option.splits sum.splits)
  show ?case
  proof (cases "y = y0")
    case True
    with f show ?thesis by simp
  next
    case False
    with Cons.prems(2) ys have "y \<in> set ys0" by simp
    from Cons.IH [OF r this] show ?thesis by auto
  qed
qed

lemma scatter_step_values:
  "foldl (\<lambda>acc (index, v).
              case acc of
                Inl e \<Rightarrow> Inl e
              | Inr arr \<Rightarrow> if index < length arr then Inr (arr[index := Some v])
                           else Inl IndexError) (Inr arr0) pairs = Inr arr \<Longrightarrow>
   Some v \<in> set arr \<Longrightarrow> Some v \<in> set arr0 \<or> v \<in> snd ` set pairs"
proof (induction pairs arbitrary: arr0)
  case Nil
  then show ?case by simp
next
  case (Cons pr pairs)
  obtain i w where pr: "pr = (i, w)" by (cases pr)
  show ?case
  proof (cases "i < length arr0")
    case True
    with Cons.prems(1) pr have "foldl (\<lambda>acc (index, v).
              case acc of
                Inl e \<Rightarrow> Inl e
              | Inr arr \<Rightarrow> if index < length arr then Inr (arr[index := Some v])
                           else Inl IndexError) (Inr (arr0[i := Some w])) pairs = Inr arr"
      by simp
    from Cons.IH [OF this Cons.prems(2)]
    have "Some v \<in> set (arr0[i := Some w]) \<or> v \<in> snd ` set pairs" .
    moreover have "set (arr0[i := Some w]) \<subseteq> insert (Some w) (set arr0)"
      by (rule set_update_subset_insert)
    ultimately show ?thesis using pr by auto
  next
    case False
    have "foldl (\<lambda>acc (index, v).
              case acc of
                Inl e \<Rightarrow> Inl e
              | Inr arr \<Rightarrow> if index < length arr then Inr (arr[index := Some v])
                           else Inl IndexError) (Inl e) ps = Inl e" for e and ps :: "(nat \<times> 'a) list"
      by (induction ps) (simp_all add: case_prod_beta)
    with Cons.prems(1) pr False show ?thesis by simp
  qed
qed

lemma scatter_values:
  "scatter n pairs = Inr arr \<Longrightarrow> Some v \<in> set arr \<Longrightarrow> v \<in> snd ` set pairs"
  unfolding scatter_def by (drule scatter_step_values) auto

lemma upt_2: "[0..<2] = [0, 1]" "[0..<Suc (Suc 0)] = [0, Suc 0]" "[0..<Suc 0] = [0]"
  by (simp_all add: upt_rec numeral_2_eq_2)

text \<open>
  C8, amended. Every array that the \<open>barycentric_gradients\<close> attribute stores for a top
  simplex has a first row that is the negative of the sum of its other rows, the sum being
  the one \<open>complex128\<close> arithmetic computes (\<open>grads.sum(axis=0)\<close>), whatever that
  arithmetic rounds. The rows then sum to the rounding error of that sum: the exact sum of
  the other rows minus their computed sum.
\<close>

theorem barycentric_gradients_first_row:
  assumes attr: "SimplicialComplex_barycentric_gradients ar metrics cx = Some (Inr B)"
    and G: "Some G \<in> set B"
  shows "G \<noteq> []
       \<and> hd G = map uminus (array_sum_axis0 ar (length (hd G)) (tl G))
       \<and> column_sums (length (hd G)) G =
           map2 (-) (column_sums (length (hd G)) (tl G))
                    (array_sum_axis0 ar (length (hd G)) (tl G))"
proof -
  let ?f = "\<lambda>(u, pts, metric).
                    case stitched_index (stitches cx) (simplex_to_index (top_sk cx)) u of
                      None \<Rightarrow> None
                    | Some (Inl e) \<Rightarrow> Some (Inl e)
                    | Some (Inr index) \<Rightarrow>
                       (case compute_barycentric_gradients ar pts metric of
                          Inl e \<Rightarrow> Some (Inl e)
                        | Inr bc \<Rightarrow> Some (Inr (index, bc)))"
  let ?items = "zip (unstitched (top_sk cx)) (zip (points (top_sk cx)) metrics)"
  from attr obtain pairs where pm: "parmap ?f ?items = Some (Inr pairs)"
    and sc: "scatter (num_simplices (top_sk cx)) pairs = Inr B"
    unfolding SimplicialComplex_barycentric_gradients_def
    by (auto split: option.splits sum.splits)
  from scatter_values [OF sc G] obtain index where "(index, G) \<in> set pairs" by auto
  from parmap_values [OF pm this] obtain u pts metric where
    "?f (u, pts, metric) = Some (Inr (index, G))" by auto
  then have "compute_barycentric_gradients ar pts metric = Inr G"
    by (auto split: option.splits sum.splits)
  note g = gradients_first_row [OF this]
  show ?thesis unfolding g(2) by (intro conjI g(1) g(3) g(4))
qed

lemmas binary64_eval = binary64_def ilog2_def round_even_def pow2_def compute_bitlen Let_def

lemmas array_eval = array_edge_vectors_def array_dot_def conj_transpose_def
  array_sum_axis0_def array_sum_def complex128_def complex128_round_def inv_mat_def det_def
  minor_def upt_2 complex_eq_iff

lemma complex128_inv_identity: "fl_inv complex128 [[1, 0], [0, 1]] = Inr [[1, 0], [0, 1]]"
  by (simp add: array_eval binary64_eval)

lemma rounded_triangle_gradients:
  "compute_barycentric_gradients complex128
     [[0, 0], [1, Complex (1 / 2 ^ 53) 0], [Complex (1 / 2 ^ 53) 0, - 1]] [[1, 0], [0, 1]]
   = Inr [[- 1, Complex (1 - 1 / 2 ^ 53) 0],
          [1, Complex (1 / 2 ^ 53) 0], [Complex (1 / 2 ^ 53) 0, - 1]]"
proof -
  let ?V = "[[1, Complex (1 / 2 ^ 53) 0], [Complex (1 / 2 ^ 53) 0, - 1]]"
  have V: "array_edge_vectors complex128
             [[0, 0], [1, Complex (1 / 2 ^ 53) 0], [Complex (1 / 2 ^ 53) 0, - 1]] = ?V"
    by (simp add: array_eval binary64_eval)
  have V1: "array_dot complex128 2 ?V [[1, 0], [0, 1]] = ?V"
    by (simp add: array_eval binary64_eval)
  have VH: "conj_transpose 2 ?V = ?V"
    by (simp add: array_eval binary64_eval)
  have gram: "array_dot complex128 2 ?V ?V = [[1, 0], [0, 1]]"
    by (simp add: array_eval binary64_eval)
  have grads: "array_dot complex128 2 [[1, 0], [0, 1]] ?V = ?V"
    by (simp add: array_eval binary64_eval)
  have sums: "array_sum_axis0 complex128 2 ?V = [1, Complex (1 / 2 ^ 53 - 1) 0]"
    by (simp add: array_eval binary64_eval)
  have neg: "map uminus [1, Complex (1 / 2 ^ 53 - 1) 0] = [- 1, Complex (1 - 1 / 2 ^ 53) 0]"
    by (simp add: complex_eq_iff)
  from V V1 VH gram complex128_inv_identity grads sums neg show ?thesis
    by (simp add: compute_barycentric_gradients_def conformable_def Let_def numeral_2_eq_2)
qed

lemma unit_triangle_gradients:
  "compute_barycentric_gradients complex128 [[0, 0], [1, 0], [0, 1]] [[1, 0], [0, 1]]
   = Inr [[- 1, - 1], [1, 0], [0, 1]]"
proof -
  let ?V = "[[1, 0], [0, 1 :: complex]]"
  have V: "array_edge_vectors complex128 [[0, 0], [1, 0], [0, 1]] = ?V"
    by (simp add: array_eval binary64_eval)
  have dot: "array_dot complex128 2 ?V ?V = ?V"
    by (simp add: array_eval binary64_eval)
  have VH: "conj_transpose 2 ?V = ?V"
    by (simp add: array_eval binary64_eval)
  have sums: "array_sum_axis0 complex128 2 ?V = [1, 1]"
    by (simp add: array_eval binary64_eval)
  have neg: "map uminus [1, 1 :: complex] = [- 1, - 1]"
    by simp
  from V dot VH complex128_inv_identity sums neg show ?thesis
    by (simp add: compute_barycentric_gradients_def conformable_def Let_def numeral_2_eq_2)
qed

text \<open>
  C8, as the specification states it, fails: the rows need not sum to the zero vector.
  For the triangle with the vertices \<open>(0, 0)\<close>, \<open>(1, 2 ^ - 53)\<close>, \<open>(2 ^ - 53, - 1)\<close> and the
  identity as metric, the Gram matrix of the edge vectors rounds to the identity (its
  off-diagonal entries vanish exactly), and the gradients of the last two vertices are the
  edge vectors. Their first components, \<open>1\<close> and \<open>2 ^ - 53\<close>, have the sum \<open>1\<close> in
  \<open>binary64\<close> (a tie, rounded to even), so the first row stores \<open>- 1\<close>: the three first
  components sum to \<open>2 ^ - 53\<close>, as \<open>sum(axis=0)\<close> adds them and also exactly.
\<close>

theorem barycentric_gradients_rounding_counterexample:
  "map_option (map_sum id (SimplicialComplex_barycentric_gradients complex128
                             [[[1, 0], [0, 1]]]))
     (SimplicialComplex_init \<lparr>rows = [[0, 1, 2]], columns = 3\<rparr>
        [[0, 0], [1, Complex (1 / 2 ^ 53) 0], [Complex (1 / 2 ^ 53) 0, - 1]] Map.empty)
   = Some (Inr (Some (Inr [Some [[- 1, Complex (1 - 1 / 2 ^ 53) 0],
                                 [1, Complex (1 / 2 ^ 53) 0],
                                 [Complex (1 / 2 ^ 53) 0, - 1]]])))
   \<and> array_sum_axis0 complex128 2
       [[- 1, Complex (1 - 1 / 2 ^ 53) 0], [1, Complex (1 / 2 ^ 53) 0],
        [Complex (1 / 2 ^ 53) 0, - 1]]
     = [Complex (1 / 2 ^ 53) 0, 0]
   \<and> column_sums 2
       [[- 1, Complex (1 - 1 / 2 ^ 53) 0], [1, Complex (1 / 2 ^ 53) 0],
        [Complex (1 / 2 ^ 53) 0, - 1]]
     = [Complex (1 / 2 ^ 53) 0, 0]"
proof (intro conjI)
  show "map_option (map_sum id (SimplicialComplex_barycentric_gradients complex128
                             [[[1, 0], [0, 1]]]))
     (SimplicialComplex_init \<lparr>rows = [[0, 1, 2]], columns = 3\<rparr>
        [[0, 0], [1, Complex (1 / 2 ^ 53) 0], [Complex (1 / 2 ^ 53) 0, - 1]] Map.empty)
   = Some (Inr (Some (Inr [Some [[- 1, Complex (1 - 1 / 2 ^ 53) 0],
                                 [1, Complex (1 / 2 ^ 53) 0],
                                 [Complex (1 / 2 ^ 53) 0, - 1]]])))"
    using rounded_triangle_gradients
    by (simp add: SimplicialComplex_init_def ndarray_sort_def stitch_empty Let_def
          SimplicialComplex_barycentric_gradients_def stitched_index_def dict_of_pairs_def
          scatter_def)
  show "array_sum_axis0 complex128 2
       [[- 1, Complex (1 - 1 / 2 ^ 53) 0], [1, Complex (1 / 2 ^ 53) 0],
        [Complex (1 / 2 ^ 53) 0, - 1]]
     = [Complex (1 / 2 ^ 53) 0, 0]"
    by (simp add: array_eval binary64_eval)
  show "column_sums 2
       [[- 1, Complex (1 - 1 / 2 ^ 53) 0], [1, Complex (1 / 2 ^ 53) 0],
        [Complex (1 / 2 ^ 53) 0, - 1]]
     = [Complex (1 / 2 ^ 53) 0, 0]"
    by (simp add: column_sums_def upt_2 complex_eq_iff)
qed

theorem barycentric_gradients_first_row_witness:
  "\<exists>cx. SimplicialComplex_init \<lparr>rows = [[0, 1, 2]], columns = 3\<rparr>
           [[0, 0], [1, 0], [0, 1]] Map.empty = Some (Inr cx)
        \<and> SimplicialComplex_barycentric_gradients complex128 [[[1, 0], [0, 1]]] cx =
            Some (Inr [Some [[- 1, - 1], [1, 0], [0, 1]]])
        \<and> [- 1, - 1] = map uminus (array_sum_axis0 complex128 2 [[1, 0], [0, 1]])
        \<and> column_sums 2 [[- 1, - 1], [1, 0], [0, 1]] =
            map2 (-) (column_sums 2 [[1, 0], [0, 1]])
                     (array_sum_axis0 complex128 2 [[1, 0], [0, 1]])"
proof -
  let ?G = "[[- 1, - 1], [1, 0], [0, 1 :: complex]]"
  have "\<exists>cx. SimplicialComplex_init \<lparr>rows = [[0, 1, 2]], columns = 3\<rparr>
           [[0, 0], [1, 0], [0, 1]] Map.empty = Some (Inr cx)
        \<and> SimplicialComplex_barycentric_gradients complex128 [[[1, 0], [0, 1]]] cx =
            Some (Inr [Some ?G])"
    using unit_triangle_gradients
    by (simp add: SimplicialComplex_init_def ndarray_sort_def stitch_empty Let_def
          SimplicialComplex_barycentric_gradients_def stitched_index_def dict_of_pairs_def
          scatter_def)
  then obtain cx where h: "SimplicialComplex_init \<lparr>rows = [[0, 1, 2]], columns = 3\<rparr>
           [[0, 0], [1, 0], [0, 1]] Map.empty = Some (Inr cx)"
    and a: "SimplicialComplex_barycentric_gradients complex128 [[[1, 0], [0, 1]]] cx =
            Some (Inr [Some ?G])"
    by blast
  have "Some ?G \<in> set [Some ?G]" by simp
  note t = barycentric_gradients_first_row [OF a this]
  from t have "hd ?G = map uminus (array_sum_axis0 complex128 (length (hd ?G)) (tl ?G))"
    by blast
  then have r: "[- 1, - 1] = map uminus (array_sum_axis0 complex128 2 [[1, 0], [0, 1]])"
    by (simp add: numeral_2_eq_2)
  from t have "column_sums (length (hd ?G)) ?G =
      map2 (-) (column_sums (length (hd ?G)) (tl ?G))
               (array_sum_axis0 complex128 (length (hd ?G)) (tl ?G))"
    by blast
  then have e: "column_sums 2 ?G =
      map2 (-) (column_sums 2 [[1, 0], [0, 1]])
               (array_sum_axis0 complex128 2 [[1, 0], [0, 1]])"
    by (simp add: numeral_2_eq_2)
  show ?thesis
    by (rule exI [of _ cx]) (intro conjI h a r e)
qed

section \<open>The triangle\<close>

lemma parmap_map_ok:
  "\<forall>x\<in>set xs. f x = Some (Inr (h x)) \<Longrightarrow> parmap f xs = Some (Inr (map h xs))"
  by (induction xs) simp_all

lemma scatter_snoc:
  "scatter n (ps @ [(i, v)]) =
     (case scatter n ps of
        Inl e \<Rightarrow> Inl e
      | Inr arr \<Rightarrow> if i < length arr then Inr (arr[i := Some v]) else Inl IndexError)"
  by (simp add: scatter_def)

lemma scatter_map_of:
  "\<forall>p\<in>set ps. fst p < n \<Longrightarrow>
   scatter n ps = Inr (map (\<lambda>i. map_of (rev ps) i) [0..<n])"
proof (induction ps rule: rev_induct)
  case Nil
  show ?case by (simp add: scatter_def map_replicate_const)
next
  case (snoc p ps)
  obtain i v where p: "p = (i, v)" by (cases p)
  from snoc.prems p have i: "i < n" by simp
  from snoc have IH: "scatter n ps = Inr (map (\<lambda>i. map_of (rev ps) i) [0..<n])" by simp
  have "(map (\<lambda>j. map_of (rev ps) j) [0..<n])[i := Some v] =
        map (\<lambda>j. map_of (rev (ps @ [(i, v)])) j) [0..<n]"
    by (rule nth_equalityI) (simp_all add: nth_list_update)
  then show ?case unfolding p scatter_snoc IH using i by simp
qed

lemma scatter_enumeration:
  assumes d: "distinct us" and s: "set us = set ref"
    and idx: "\<forall>i<length ref. idx (ref ! i) = i"
  shows "scatter (length ref) (map (\<lambda>u. (idx u, val u)) us) = Inr (map (\<lambda>u. Some (val u)) ref)"
proof -
  let ?ps = "map (\<lambda>u. (idx u, val u)) us"
  have inj: "inj_on idx (set ref)"
  proof (rule inj_onI)
    fix x y assume "x \<in> set ref" "y \<in> set ref" "idx x = idx y"
    then obtain i j where "i < length ref" "x = ref ! i" "j < length ref" "y = ref ! j"
      by (auto simp: in_set_conv_nth)
    with idx \<open>idx x = idx y\<close> show "x = y" by auto
  qed
  have bound: "\<forall>p\<in>set ?ps. fst p < length ref"
  proof
    fix p assume "p \<in> set ?ps"
    then obtain u where "u \<in> set ref" "fst p = idx u" using s by auto
    then obtain i where "i < length ref" "u = ref ! i" by (auto simp: in_set_conv_nth)
    with idx \<open>fst p = idx u\<close> show "fst p < length ref" by auto
  qed
  have dist: "distinct (map fst (rev ?ps))"
  proof -
    have "map fst ?ps = map idx us" by simp
    moreover have "distinct (map idx us)" using d inj s by (simp add: distinct_map)
    ultimately show ?thesis by (simp add: rev_map [symmetric] del: map_map)
  qed
  have "map (\<lambda>i. map_of (rev ?ps) i) [0..<length ref] = map (\<lambda>i. Some (val (ref ! i))) [0..<length ref]"
  proof (rule map_cong [OF refl])
    fix i assume "i \<in> set [0..<length ref]"
    then have i: "i < length ref" by simp
    then have "ref ! i \<in> set us" using s by simp
    then have "(idx (ref ! i), val (ref ! i)) \<in> set (rev ?ps)" by auto
    then have "(i, val (ref ! i)) \<in> set (rev ?ps)" using idx i by simp
    from map_of_is_SomeI [OF dist this] show "map_of (rev ?ps) i = Some (val (ref ! i))" .
  qed
  also have "\<dots> = map (\<lambda>u. Some (val u)) ref"
    by (rule nth_equalityI) simp_all
  finally show ?thesis using scatter_map_of [OF bound] by simp
qed

lemma zip_gather:
  "zip us (zip (map g us) (replicate (length us) c)) = map (\<lambda>u. (u, g u, c)) us"
  by (induction us) simp_all

lemma csqrt_2: "csqrt 2 = complex_of_real (sqrt 2)"
  using csqrt_of_real_nonneg [of 2] by simp

lemma volume_triangle:
  "compute_primal_volumes [[0, 0], [1, 0], [0, 1]] euclidean = Inr 1"
  by (simp add: compute_primal_volumes_def conformable_def edge_vectors_def mat_dot_def
        conj_transpose_def det_def minor_def euclidean_def Let_def upt_2)

lemma volume_edges:
  "compute_primal_volumes [[1, 0], [0, 1]] euclidean = Inr (complex_of_real (sqrt 2))"
  "compute_primal_volumes [[0, 0], [0, 1]] euclidean = Inr 1"
  "compute_primal_volumes [[0, 0], [1, 0]] euclidean = Inr 1"
  by (simp_all add: compute_primal_volumes_def conformable_def edge_vectors_def mat_dot_def
        conj_transpose_def det_def minor_def euclidean_def Let_def upt_2 csqrt_2)

lemma triangle_fields:
  "\<exists>cx. triangle = Some (Inr cx) \<and> vertices cx = [[0, 0], [1, 0], [0, 1]]
        \<and> stitches cx = Map.empty \<and> complex_dimension cx = 2 \<and> dim (top_sk cx) = 2
        \<and> unstitched (top_sk cx) = [[0, 1, 2]] \<and> simplices (top_sk cx) = [[0, 1, 2]]
        \<and> num_simplices (top_sk cx) = 1
        \<and> simplex_to_index (top_sk cx) (set [0, 1, 2]) = Some 0"
  by (simp add: triangle_def SimplicialComplex_init_def ndarray_sort_def stitch_empty Let_def
        dict_of_pairs_def)

lemma edges_of_triangle:
  "simplices (projr (compute_exterior 1 [[0, 1, 2]])) = [[1, 2], [0, 2], [0, 1]]"
  "num_simplices (projr (compute_exterior 1 [[0, 1, 2]])) = 3"
  "exterior_derivative (projr (compute_exterior 1 [[0, 1, 2]])) =
     \<lparr>data = [1, - 1, 1], indices = [0, 1, 2], indptr = [0, 3], shape = (1, 3)\<rparr>"
  "simplex_to_index (projr (compute_exterior 1 [[0, 1, 2]])) (set [1, 2]) = Some 0"
  "simplex_to_index (projr (compute_exterior 1 [[0, 1, 2]])) (set [0, 2]) = Some 1"
  "simplex_to_index (projr (compute_exterior 1 [[0, 1, 2]])) (set [0, 1]) = Some 2"
  by code_simp+

lemma vertices_of_triangle:
  "num_simplices (projr (compute_exterior 0 [[1, 2], [0, 2], [0, 1]])) = 3"
  by code_simp

lemma entries_of_triangle:
  "map (csr_get \<lparr>data = [1, - 1, 1], indices = [0, 1, 2], indptr = [0, 3], shape = (1, 3)\<rparr> 0)
     [0, 1, 2] = [1, - 1, 1]"
  by code_simp

lemma unstitched_edges: "unstitched_below [[0, 1, 2]] 1 = set [[1, 2], [0, 2], [0, 1]]"
  by (simp add: compute_unstitched_def delete_vertex_def upt_rec numeral_3_eq_3)

text \<open>
  C5. For the triangle with the vertices \<open>(0,0)\<close>, \<open>(1,0)\<close>, \<open>(0,1)\<close>, the identity
  metric and no stitches: the skeleton of dimension 2 has one simplex, of primal volume
  \<open>1/2\<close>; the skeleton of dimension 1 has the three edges \<open>[1,2]\<close>, \<open>[0,2]\<close>, \<open>[0,1]\<close>
  with the primal volumes \<open>sqrt 2\<close>, \<open>1\<close>, \<open>1\<close>, in whatever order the unstitched edges
  are listed; the skeleton of dimension 0 has three vertices, each of primal volume \<open>1\<close>;
  and the exterior derivative at dimension 1 is the \<open>1 \<times> 3\<close> matrix with the entries
  \<open>+1, -1, +1\<close> in deletion order.
\<close>

theorem triangle_scenario:
  "\<exists>cx sk2 sk1 sk0.
      triangle = Some (Inr cx)
    \<and> getitem cx 2 = Inr sk2 \<and> getitem cx 1 = Inr sk1 \<and> getitem cx 0 = Inr sk0
    \<and> num_simplices sk2 = 1
    \<and> Skeleton_primal_volumes cx 2 (unstitched (top_sk cx)) [euclidean] = Some (Inr [Some (1 / 2)])
    \<and> num_simplices sk1 = 3
    \<and> simplices sk1 = [[1, 2], [0, 2], [0, 1]]
    \<and> (\<forall>us. distinct us \<and> set us = unstitched_below (unstitched (top_sk cx)) 1 \<longrightarrow>
           Skeleton_primal_volumes cx 1 us (replicate (length us) euclidean) =
             Some (Inr [Some (complex_of_real (sqrt 2)), Some 1, Some 1]))
    \<and> num_simplices sk0 = 3
    \<and> (\<forall>us metrics. Skeleton_primal_volumes cx 0 us metrics = Some (Inr [Some 1, Some 1, Some 1]))
    \<and> exterior_derivative sk1 =
         \<lparr>data = [1, - 1, 1], indices = [0, 1, 2], indptr = [0, 3], shape = (1, 3)\<rparr>
    \<and> map (csr_get (exterior_derivative sk1) 0) [0, 1, 2] = [1, - 1, 1]"
proof -
  from triangle_fields obtain cx where t: "triangle = Some (Inr cx)"
    and v: "vertices cx = [[0, 0], [1, 0], [0, 1]]" and st: "stitches cx = Map.empty"
    and cd: "complex_dimension cx = 2" and dm: "dim (top_sk cx) = 2"
    and un: "unstitched (top_sk cx) = [[0, 1, 2]]" and si: "simplices (top_sk cx) = [[0, 1, 2]]"
    and nu: "num_simplices (top_sk cx) = 1"
    and ix: "simplex_to_index (top_sk cx) (set [0, 1, 2]) = Some 0"
    by blast
  let ?T = "skeleton.truncate (top_sk cx)"
  let ?sk1 = "projr (compute_exterior 1 [[0, 1, 2]])"
  let ?sk0 = "projr (compute_exterior 0 [[1, 2], [0, 2], [0, 1]])"
  have ce1: "compute_exterior 1 [[0, 1, 2]] = Inr ?sk1" by (rule compute_exterior_total) simp
  have ce0: "compute_exterior 0 [[1, 2], [0, 2], [0, 1]] = Inr ?sk0"
    by (rule compute_exterior_total) simp
  have d1: "dim ?sk1 = 1" using compute_exterior_state(4) [OF ce1] .
  have d0: "dim ?sk0 = 0" using compute_exterior_state(4) [OF ce0] .
  have below1: "skeleton_below ?T (Suc 0) = Inr ?sk1"
    using ce1 by (simp add: truncate_sel dm si)
  have below2: "skeleton_below ?T (Suc (Suc 0)) = Inr ?sk0"
  proof -
    have z: "(1::int) - 1 = 0" by simp
    show ?thesis
      unfolding skeleton_below.simps(2) [of ?T "Suc 0"] below1 sum.case d1
        edges_of_triangle(1) z
      by (rule ce0)
  qed
  have n2: "nat (complex_dimension cx) = 2" using cd by simp
  have g2: "getitem cx 2 = Inr ?T" by (simp add: getitem_def n2 Let_def)
  have g1: "getitem cx 1 = Inr ?sk1"
    using below1 by (simp add: getitem_def n2 Let_def)
  have g0: "getitem cx 0 = Inr ?sk0"
    using below2 by (simp add: getitem_def n2 Let_def numeral_2_eq_2)
  have pv2: "Skeleton_primal_volumes cx 2 (unstitched (top_sk cx)) [euclidean] =
               Some (Inr [Some (1 / 2)])"
    unfolding Skeleton_primal_volumes_def g2 un
    using ix volume_triangle
    by (simp add: gather_def v st stitched_index_def stitch_empty truncate_sel
          scatter_def nu fact_2 dm)
  have pv1: "Skeleton_primal_volumes cx 1 us (replicate (length us) euclidean) =
             Some (Inr [Some (complex_of_real (sqrt 2)), Some 1, Some 1])"
    if us: "distinct us \<and> set us = unstitched_below (unstitched (top_sk cx)) 1" for us
  proof -
    let ?ref = "[[1, 2], [0, 2], [0, 1 :: nat]]"
    let ?idx = "\<lambda>u. the (simplex_to_index ?sk1 (set u))"
    let ?val = "\<lambda>u. projr (compute_primal_volumes (map (\<lambda>v. [[0, 0], [1, 0], [0, 1]] ! v) u) euclidean)"
    let ?f = "\<lambda>(u, pts, metric).
                           case stitched_index Map.empty (simplex_to_index ?sk1) u of
                             None \<Rightarrow> None
                           | Some (Inl e) \<Rightarrow> Some (Inl e)
                           | Some (Inr index) \<Rightarrow>
                              (case compute_primal_volumes pts metric of
                                 Inl e \<Rightarrow> Some (Inl e)
                               | Inr volume \<Rightarrow> Some (Inr (index, volume)))"
    from us have dist: "distinct us" by simp
    from us have "set us = unstitched_below [[0, 1, 2]] 1" unfolding un by simp
    then have set_us: "set us = set ?ref" unfolding unstitched_edges .
    have item: "\<forall>x\<in>set (map (\<lambda>u. (u, map (\<lambda>v. [[0, 0], [1, 0], [0, 1]] ! v) u, euclidean)) us).
        ?f x = Some (Inr ((\<lambda>(u, pts, metric). (?idx u, ?val u)) x))"
      using set_us edges_of_triangle(4-6) volume_edges
      by (auto simp: stitched_index_def stitch_empty)
    have pm: "parmap ?f (map (\<lambda>u. (u, map (\<lambda>v. [[0, 0], [1, 0], [0, 1]] ! v) u, euclidean)) us) =
        Some (Inr (map (\<lambda>u. (?idx u, ?val u)) us))"
      unfolding parmap_map_ok [OF item] by (simp add: comp_def)
    have idx: "\<forall>i<length ?ref. ?idx (?ref ! i) = i"
      using edges_of_triangle(4-6) by (auto simp: less_Suc_eq numeral_3_eq_3)
    have len3: "length ?ref = 3" by simp
    have sc: "scatter 3 (map (\<lambda>u. (?idx u, ?val u)) us) = Inr (map (\<lambda>u. Some (?val u)) ?ref)"
      using scatter_enumeration [OF dist set_us idx, of ?val] unfolding len3 .
    show ?thesis
      unfolding Skeleton_primal_volumes_def g1 gather_def v st zip_gather
      using pm sc edges_of_triangle(2) volume_edges d1
      by simp
  qed
  have pv0: "Skeleton_primal_volumes cx 0 us metrics = Some (Inr [Some 1, Some 1, Some 1])"
    for us metrics
    unfolding Skeleton_primal_volumes_def g0
    using vertices_of_triangle d0 by (simp add: numeral_3_eq_3)
  have e: "map (csr_get (exterior_derivative ?sk1) 0) [0, 1, 2] = [1, - 1, 1]"
    unfolding edges_of_triangle(3) by (rule entries_of_triangle)
  have nT: "num_simplices ?T = 1" by (simp add: truncate_sel nu)
  have A: "\<forall>us. distinct us \<and> set us = unstitched_below (unstitched (top_sk cx)) 1 \<longrightarrow>
           Skeleton_primal_volumes cx 1 us (replicate (length us) euclidean) =
             Some (Inr [Some (complex_of_real (sqrt 2)), Some 1, Some 1])"
    using pv1 by blast
  have B: "\<forall>us metrics. Skeleton_primal_volumes cx 0 us metrics =
             Some (Inr [Some 1, Some 1, Some 1])"
    using pv0 by blast
  show ?thesis
    by (rule exI [of _ cx], rule exI [of _ ?T], rule exI [of _ ?sk1], rule exI [of _ ?sk0])
       (intro conjI t g2 g1 g0 nT pv2 A B e edges_of_triangle(1-3) vertices_of_triangle)
qed

theorem triangle_scenario_witness:
  "\<exists>cx. triangle = Some (Inr cx)
        \<and> Skeleton_primal_volumes cx 1 [[0, 1], [1, 2], [0, 2]] (replicate 3 euclidean) =
            Some (Inr [Some (complex_of_real (sqrt 2)), Some 1, Some 1])"
proof -
  from triangle_scenario obtain cx where t: "triangle = Some (Inr cx)"
    and all: "\<forall>us. distinct us \<and> set us = unstitched_below (unstitched (top_sk cx)) 1 \<longrightarrow>
           Skeleton_primal_volumes cx 1 us (replicate (length us) euclidean) =
             Some (Inr [Some (complex_of_real (sqrt 2)), Some 1, Some 1])"
    by blast
  from triangle_fields obtain cx' where t': "triangle = Some (Inr cx')"
    and un': "unstitched (top_sk cx') = [[0, 1, 2]]" by blast
  from trans [OF t' [symmetric] t] have "cx' = cx" by simp
  with un' have un: "unstitched (top_sk cx) = [[0, 1, 2]]" by simp
  let ?us = "[[0, 1], [1, 2], [0, 2 :: nat]]"
  have "set ?us = unstitched_below (unstitched (top_sk cx)) 1"
    unfolding un unstitched_edges by auto
  moreover have "distinct ?us" by simp
  ultimately have "Skeleton_primal_volumes cx 1 ?us (replicate (length ?us) euclidean) =
             Some (Inr [Some (complex_of_real (sqrt 2)), Some 1, Some 1])"
    using all by blast
  moreover have "length ?us = 3" by simp
  ultimately have "Skeleton_primal_volumes cx 1 ?us (replicate 3 euclidean) =
             Some (Inr [Some (complex_of_real (sqrt 2)), Some 1, Some 1])"
    by (simp only:)
  with t show ?thesis by blast
qed

section \<open>The composition of two exterior derivatives\<close>

lemma delete_vertex_Cons:
  "delete_vertex (x # xs) 0 = xs"
  "delete_vertex (x # xs) (Suc i) = x # delete_vertex xs i"
  "delete_vertex [] i = []"
  by (simp_all add: delete_vertex_def)

lemma delete_vertex_commute:
  "i \<le> j \<Longrightarrow>
   delete_vertex (delete_vertex s i) j = delete_vertex (delete_vertex s (Suc j)) i"
proof (induction s arbitrary: i j)
  case Nil
  then show ?case by (simp add: delete_vertex_Cons)
next
  case (Cons x xs)
  show ?case
  proof (cases i)
    case 0
    then show ?thesis by (simp add: delete_vertex_Cons)
  next
    case (Suc i')
    with Cons.prems obtain j' where j: "j = Suc j'" "i' \<le> j'" by (cases j) auto
    from Cons.IH [OF j(2)] show ?thesis by (simp add: Suc j delete_vertex_Cons)
  qed
qed

lemma alternating_double_deletion:
  fixes \<phi> :: "nat list \<Rightarrow> int"
  shows "(\<Sum>j\<leftarrow>[0..<m]. \<Sum>j'\<leftarrow>[0..<m - 1].
           (- 1) ^ j * ((- 1) ^ j' * \<phi> (delete_vertex (delete_vertex s j) j'))) = 0"
proof -
  define a where "a = (\<lambda>(j, j'). (- 1) ^ j * ((- 1) ^ j' * \<phi> (delete_vertex (delete_vertex s j) j')))"
  define L where "L = {(j, j'). j < m \<and> j' < j}"
  define U where "U = {(j, j'). j' < m - 1 \<and> j \<le> j'}"
  have P: "{0..<m} \<times> {0..<m - 1} = L \<union> U" unfolding L_def U_def by auto
  have disj: "L \<inter> U = {}" unfolding L_def U_def by auto
  have fin: "finite L" "finite U"
  proof -
    have "finite (L \<union> U)" unfolding P [symmetric] by simp
    then show "finite L" "finite U" by simp_all
  qed
  have "(\<Sum>j\<leftarrow>[0..<m]. \<Sum>j'\<leftarrow>[0..<m - 1].
           (- 1) ^ j * ((- 1) ^ j' * \<phi> (delete_vertex (delete_vertex s j) j'))) =
        (\<Sum>j\<in>{0..<m}. \<Sum>j'\<in>{0..<m - 1}. a (j, j'))"
    by (simp add: interv_sum_list_conv_sum_set_nat a_def)
  also have "\<dots> = sum a ({0..<m} \<times> {0..<m - 1})"
    by (simp add: sum.cartesian_product)
  also have "\<dots> = sum a L + sum a U"
    unfolding P by (rule sum.union_disjoint [OF fin disj])
  also have "sum a L = sum (\<lambda>(j, j'). a (Suc j', j)) U"
  proof (rule sum.reindex_bij_witness [where i = "\<lambda>(j, j'). (Suc j', j)" and j = "\<lambda>(u, v). (v, u - 1)"])
    fix p assume "p \<in> L"
    then obtain u v where p: "p = (u, v)" "u < m" "v < u" unfolding L_def by auto
    show "(case case p of (u, v) \<Rightarrow> (v, u - 1) of (j, j') \<Rightarrow> (Suc j', j)) = p"
      using p by simp
    show "(case p of (u, v) \<Rightarrow> (v, u - 1)) \<in> U" using p unfolding U_def by auto
    show "(case case p of (u, v) \<Rightarrow> (v, u - 1) of (j, j') \<Rightarrow> a (Suc j', j)) = a p"
      using p by simp
  next
    fix q assume "q \<in> U"
    then obtain j j' where q: "q = (j, j')" "j' < m - 1" "j \<le> j'" unfolding U_def by auto
    show "(case case q of (j, j') \<Rightarrow> (Suc j', j) of (u, v) \<Rightarrow> (v, u - 1)) = q"
      using q by simp
    show "(case q of (j, j') \<Rightarrow> (Suc j', j)) \<in> L" using q unfolding L_def by auto
  qed
  also have "\<dots> = sum (\<lambda>p. - a p) U"
  proof (rule sum.cong [OF refl])
    fix q assume "q \<in> U"
    then obtain j j' where q: "q = (j, j')" "j \<le> j'" unfolding U_def by auto
    have "delete_vertex (delete_vertex s (Suc j')) j = delete_vertex (delete_vertex s j) j'"
      using delete_vertex_commute [OF q(2), of s] by simp
    then show "(case q of (j, j') \<Rightarrow> a (Suc j', j)) = - a q"
      unfolding q(1) a_def by simp
  qed
  also have "\<dots> = - sum a U" by (simp add: sum_negf)
  finally show ?thesis by simp
qed

lemma sum_list_select:
  fixes w g :: "nat \<Rightarrow> int"
  assumes "\<forall>j<m. idx j < n"
  shows "(\<Sum>k\<leftarrow>[0..<n]. (\<Sum>j\<leftarrow>[0..<m]. if idx j = k then w j else 0) * g k) =
         (\<Sum>j\<leftarrow>[0..<m]. w j * g (idx j))"
proof -
  have "(\<Sum>k\<leftarrow>[0..<n]. (\<Sum>j\<leftarrow>[0..<m]. if idx j = k then w j else 0) * g k) =
        (\<Sum>k\<in>{0..<n}. \<Sum>j\<in>{0..<m}. if idx j = k then w j * g k else 0)"
    by (simp add: interv_sum_list_conv_sum_set_nat sum_distrib_right if_distrib [of "\<lambda>x. x * _"]
          cong: if_cong)
  also have "\<dots> = (\<Sum>j\<in>{0..<m}. \<Sum>k\<in>{0..<n}. if idx j = k then w j * g k else 0)"
    by (rule sum.swap)
  also have "\<dots> = (\<Sum>j\<in>{0..<m}. w j * g (idx j))"
  proof (rule sum.cong [OF refl])
    fix j assume "j \<in> {0..<m}"
    with assms have "idx j \<in> {0..<n}" by simp
    then show "(\<Sum>k\<in>{0..<n}. if idx j = k then w j * g k else 0) = w j * g (idx j)"
      by (simp add: sum.delta')
  qed
  finally show ?thesis by (simp add: interv_sum_list_conv_sum_set_nat)
qed

lemma ascending_delete_vertex:
  "sorted_wrt (<) (s :: nat list) \<Longrightarrow> sorted_wrt (<) (delete_vertex s j)"
proof -
  assume a: "sorted_wrt (<) s"
  then have "sorted_wrt (<) (take j s @ drop j s)" by simp
  then have "sorted_wrt (<) (take j s) \<and> sorted_wrt (<) (drop j s)
      \<and> (\<forall>x\<in>set (take j s). \<forall>y\<in>set (drop j s). x < y)"
    unfolding sorted_wrt_append .
  then have t: "sorted_wrt (<) (take j s)"
    and c: "\<forall>x\<in>set (take j s). \<forall>y\<in>set (drop j s). x < y"
    by blast+
  have sub: "set (drop (Suc j) s) \<subseteq> set (drop j s)"
    by (rule set_drop_subset_set_drop) simp
  have "sorted_wrt (<) (drop (Suc j) s)" using a by (rule sorted_wrt_drop)
  with t c sub show ?thesis
    by (auto simp: delete_vertex_def sorted_wrt_append)
qed

lemma exterior_exterior_entry:
  assumes ce1: "compute_exterior d1 old = Inr hi"
    and ce0: "compute_exterior d0 (simplices hi) = Inr lo"
    and rect: "\<forall>s\<in>set old. length s = m" and m: "m < 256"
    and cons: "one_vertex_order old"
    and r: "r < length old"
  shows "csr_dot_entry (exterior_derivative hi) (exterior_derivative lo) r c = 0"
proof -
  let ?s = "old ! r"
  let ?idx = "\<lambda>j. indices (exterior_derivative hi) ! (r * m + j)"
  let ?g = "\<lambda>k. csr_get (exterior_derivative lo) k c"
  let ?\<phi> = "\<lambda>f. if simplex_to_index lo (set f) = Some c then 1 else (0::int)"
  have w: "width old = m"
    using compute_exterior_state(1) [OF ce1] rect m by (rule width_uniform)
  from compute_exterior_inv [OF ce1]
  have sub: "set (simplices hi) \<subseteq> set (all_faces m old)"
    and idx: "\<And>k i. simplex_to_index hi k = Some i \<longleftrightarrow>
                i < length (simplices hi) \<and> set (simplices hi ! i) = k"
    unfolding dedup_inv_def state_of_sel w by blast+
  have one: "set f = set g \<Longrightarrow> f = g"
    if "f \<in> set (all_faces m old)" "g \<in> set (all_faces m old)" for f g
    using cons that unfolding one_vertex_order_def w list_all_iff by blast
  have hi_len: "\<forall>f\<in>set (simplices hi). length f = m - 1"
    by (rule compute_exterior_simplices(2) [OF ce1 rect m])
  have m1: "m - 1 < 256" using m by simp
  have cols: "snd (shape (exterior_derivative hi)) = length (simplices hi)"
    using compute_exterior_state(3) [OF ce1] by simp
  have face: "?idx j < length (simplices hi) \<and> simplices hi ! ?idx j = delete_vertex ?s j"
    if j: "j < m" for j
  proof -
    from exterior_lookup(1) [OF ce1 rect m r j] idx
    have b: "?idx j < length (simplices hi)"
      and e: "set (simplices hi ! ?idx j) = set (delete_vertex ?s j)"
      by blast+
    have "simplices hi ! ?idx j \<in> set (simplices hi)" using b by (rule nth_mem)
    with sub have f: "simplices hi ! ?idx j \<in> set (all_faces m old)" by blast
    have "old ! r \<in> set old" using r by (rule nth_mem)
    with j have g: "delete_vertex ?s j \<in> set (all_faces m old)"
      unfolding in_all_faces by blast
    from one [OF f g e] b show ?thesis by simp
  qed
  have get1: "csr_get (exterior_derivative hi) r k =
                (\<Sum>j\<leftarrow>[0..<m]. if ?idx j = k then (- 1) ^ j else 0)" for k
    unfolding csr_get_exterior [OF ce1 rect m r]
    by (rule arg_cong [where f = sum_list], rule map_cong [OF refl])
       (simp add: exterior_lookup(1) [OF ce1 rect m r])
  have get0: "?g (?idx j) =
                (\<Sum>j'\<leftarrow>[0..<m - 1]. (- 1) ^ j' * ?\<phi> (delete_vertex (delete_vertex ?s j) j'))"
    if j: "j < m" for j
  proof -
    from face [OF j] have b: "?idx j < length (simplices hi)"
      and e: "simplices hi ! ?idx j = delete_vertex ?s j" by simp_all
    show ?thesis
      unfolding csr_get_exterior [OF ce0 hi_len m1 b] e
      by (rule arg_cong [where f = sum_list], rule map_cong [OF refl]) simp
  qed
  have "csr_dot_entry (exterior_derivative hi) (exterior_derivative lo) r c =
          (\<Sum>k\<leftarrow>[0..<length (simplices hi)].
             (\<Sum>j\<leftarrow>[0..<m]. if ?idx j = k then (- 1) ^ j else 0) * ?g k)"
    unfolding csr_dot_entry_def cols get1 ..
  also have "\<dots> = (\<Sum>j\<leftarrow>[0..<m]. (- 1) ^ j * ?g (?idx j))"
    by (rule sum_list_select) (simp add: face)
  also have "\<dots> = (\<Sum>j\<leftarrow>[0..<m]. \<Sum>j'\<leftarrow>[0..<m - 1].
           (- 1) ^ j * ((- 1) ^ j' * ?\<phi> (delete_vertex (delete_vertex ?s j) j')))"
    by (rule arg_cong [where f = sum_list], rule map_cong [OF refl])
       (simp add: get0 sum_list_const_mult)
  also have "\<dots> = 0" by (rule alternating_double_deletion)
  finally show ?thesis .
qed

lemma ascending_one_vertex_order:
  assumes "\<forall>s\<in>set old. sorted_wrt (<) s"
  shows "one_vertex_order old"
proof -
  have "f = g" if f: "f \<in> set (all_faces (width old) old)"
    and g: "g \<in> set (all_faces (width old) old)" and e: "set f = set g" for f g
  proof -
    from f obtain s i where "s \<in> set old" "f = delete_vertex s i"
      unfolding in_all_faces by blast
    with assms have sf: "sorted_wrt (<) f" by (simp add: ascending_delete_vertex)
    from g obtain t j where "t \<in> set old" "g = delete_vertex t j"
      unfolding in_all_faces by blast
    with assms have sg: "sorted_wrt (<) g" by (simp add: ascending_delete_vertex)
    from sf sg e show ?thesis by (metis strict_sorted_equal)
  qed
  then show ?thesis unfolding one_vertex_order_def list_all_iff by blast
qed

text \<open>
  Where the identity holds. Let the complex be built from an array with at least one row,
  and let \<open>1 \<le> d \<le> complex_dimension - 1\<close>. If every face of the simplices of
  \<open>complex[d + 1]\<close> keeps one vertex order, then every entry of
  \<open>exterior_derivative(d) . exterior_derivative(d - 1)\<close> is zero: the sign \<open>(-1) ^ j\<close> of
  the deleted position is then the sign of the face in the order the skeleton stores.
\<close>

theorem exterior_exterior_zero_one_order:
  assumes init: "SimplicialComplex_init arr verts st = Some (Inr cx)"
    and ne: "rows arr \<noteq> []" and rect: "\<forall>s\<in>set (rows arr). length s = columns arr"
    and small: "columns arr < 256"
    and d: "0 < d" "d + 1 < columns arr"
    and up: "getitem cx (d + 1) = Inr up" and cons: "one_vertex_order (simplices up)"
  shows "\<exists>hi lo. getitem cx d = Inr hi \<and> getitem cx (d - 1) = Inr lo
           \<and> (\<forall>r<fst (shape (exterior_derivative hi)). \<forall>c.
                 csr_dot_entry (exterior_derivative hi) (exterior_derivative lo) r c = 0)"
proof -
  let ?T = "skeleton.truncate (top_sk cx)"
  let ?m = "columns arr"
  let ?D = "?m - 1"
  define n where "n = ?D - (d + 1)"
  have Dd: "?D - d = Suc n" "?D - (d - 1) = Suc (Suc n)" using d by (simp_all add: n_def)
  have D: "nat (complex_dimension cx) = ?D"
    using init_fields(1) [OF init] d by simp
  have nd: "\<not> ?D < d" "\<not> ?D < d - 1" "\<not> ?D < d + 1" using d by simp_all
  have nm: "n < ?m" "Suc n < ?m" "Suc (Suc n) < ?m" using d by (simp_all add: n_def)
  from init_chain [OF init ne rect small nm(1)] obtain old where
    old: "skeleton_below ?T n = Inr old" and old_len: "\<forall>s\<in>set (simplices old). length s = ?m - n"
    by blast
  from init_chain [OF init ne rect small nm(2)] obtain hi where
    hi: "skeleton_below ?T (Suc n) = Inr hi" by blast
  from init_chain [OF init ne rect small nm(3)] obtain lo where
    lo: "skeleton_below ?T (Suc (Suc n)) = Inr lo" by blast
  from hi old have ce1: "compute_exterior (dim old - 1) (simplices old) = Inr hi" by simp
  have ce0: "compute_exterior (dim hi - 1) (simplices hi) = Inr lo"
    using lo unfolding skeleton_below.simps(2) [of ?T "Suc n"] hi by simp
  have mn: "?m - n < 256" using small by simp
  have "getitem cx (d + 1) = skeleton_below ?T (?D - (d + 1))"
    using nd(3) by (simp add: getitem_def D Let_def)
  also have "\<dots> = Inr old" unfolding n_def [symmetric] by (rule old)
  finally have "up = old" using up by simp
  with cons have old_cons: "one_vertex_order (simplices old)" by simp
  have rows: "fst (shape (exterior_derivative hi)) = length (simplices old)"
    using compute_exterior_state(3) [OF ce1] by simp
  have zero: "\<forall>r<fst (shape (exterior_derivative hi)). \<forall>c.
                 csr_dot_entry (exterior_derivative hi) (exterior_derivative lo) r c = 0"
    unfolding rows
    using exterior_exterior_entry [OF ce1 ce0 old_len mn old_cons] by blast
  have "getitem cx d = skeleton_below ?T (?D - d)"
    using nd(1) by (simp add: getitem_def D Let_def)
  also have "\<dots> = Inr hi" unfolding Dd(1) by (rule hi)
  finally have g1: "getitem cx d = Inr hi" .
  have "getitem cx (d - 1) = skeleton_below ?T (?D - (d - 1))"
    using nd(2) by (simp add: getitem_def D Let_def)
  also have "\<dots> = Inr lo" unfolding Dd(2) by (rule lo)
  finally have g0: "getitem cx (d - 1) = Inr lo" .
  from g1 g0 zero show ?thesis by blast
qed

text \<open>
  In particular the identity holds where every row of the top skeleton, after stitching,
  is strictly ascending; that is so for every complex built without stitches from rows of
  distinct vertices, because the constructor sorts each row.
\<close>

theorem exterior_exterior_zero_ascending:
  assumes init: "SimplicialComplex_init arr verts st = Some (Inr cx)"
    and ne: "rows arr \<noteq> []" and rect: "\<forall>s\<in>set (rows arr). length s = columns arr"
    and small: "columns arr < 256"
    and asc: "\<forall>s\<in>set (simplices (top_sk cx)). sorted_wrt (<) s"
    and d: "0 < d" "d + 1 < columns arr"
  shows "\<exists>hi lo. getitem cx d = Inr hi \<and> getitem cx (d - 1) = Inr lo
           \<and> (\<forall>r<fst (shape (exterior_derivative hi)). \<forall>c.
                 csr_dot_entry (exterior_derivative hi) (exterior_derivative lo) r c = 0)"
proof -
  let ?T = "skeleton.truncate (top_sk cx)"
  let ?m = "columns arr"
  let ?D = "?m - 1"
  define n where "n = ?D - (d + 1)"
  have D: "nat (complex_dimension cx) = ?D"
    using init_fields(1) [OF init] d by simp
  have nd: "\<not> ?D < d + 1" using d by simp
  have nm: "n < ?m" using d by (simp add: n_def)
  from init_chain [OF init ne rect small nm] obtain old where
    old: "skeleton_below ?T n = Inr old" by blast
  have T_len: "\<forall>s\<in>set (simplices ?T). length s = ?m"
    using init_simplices(3) [OF init rect] by (simp add: truncate_sel)
  have T_asc: "\<forall>s\<in>set (simplices ?T). sorted_wrt (<) s" using asc by (simp add: truncate_sel)
  have old_asc: "\<forall>s\<in>set (simplices old). sorted_wrt (<) s"
    using skeleton_below_faces [of ?T "sorted_wrt (<)", OF T_asc ascending_delete_vertex
        T_len small old] .
  have "getitem cx (d + 1) = skeleton_below ?T (?D - (d + 1))"
    using nd by (simp add: getitem_def D Let_def)
  also have "\<dots> = Inr old" unfolding n_def [symmetric] by (rule old)
  finally have up: "getitem cx (d + 1) = Inr old" .
  from exterior_exterior_zero_one_order [OF init ne rect small d up
      ascending_one_vertex_order [OF old_asc]]
  show ?thesis .
qed

lemma init_unstitched_ascending:
  assumes init: "SimplicialComplex_init arr verts Map.empty = Some (Inr cx)"
    and dist: "\<forall>s\<in>set (rows arr). distinct s"
  shows "\<forall>s\<in>set (simplices (top_sk cx)). sorted_wrt (<) s"
proof
  fix s assume "s \<in> set (simplices (top_sk cx))"
  then obtain i where i: "i < length (rows arr)" "s = simplices (top_sk cx) ! i"
    using init_simplices(1) [OF init] by (auto simp: in_set_conv_nth)
  with init_simplices(2) [OF init] have "stitch (sort (rows arr ! i)) Map.empty = Some s" by simp
  then have "s = sort (rows arr ! i)" by (simp add: stitch_empty)
  moreover have "distinct (rows arr ! i)" using dist i by simp
  ultimately show "sorted_wrt (<) s" by (simp add: strict_sorted_iff)
qed

text \<open>
  C1. The composition \<open>exterior_derivative(1) . exterior_derivative(0)\<close> is not the zero
  matrix for the periodic strip of four triangles that \<open>grid\<close> and \<open>pbc_stitches\<close> give for
  a \<open>3 \<times> 2\<close> grid of vertices whose last column is identified with the first
  (\<open>4 \<mapsto> 0\<close>, \<open>5 \<mapsto> 1\<close>). The constructor sorts the rows and stitches them afterwards: the
  stitched rows are \<open>[0,2,3]\<close>, \<open>[0,1,3]\<close>, \<open>[2,0,1]\<close>, \<open>[2,3,1]\<close>, and the edges \<open>{0,2}\<close>
  and \<open>{1,3}\<close> occur in both vertex orders. \<open>compute_exterior\<close> takes the sign of a face
  from the deleted position alone and keeps the vertex order it sees first, so the product
  of the two exterior derivatives has the rows \<open>[0,2,-2,0]\<close> and \<open>[2,0,0,-2]\<close>.
\<close>

theorem exterior_exterior_stitched_counterexample:
  "map_option (map_sum id (exterior_composition 1))
     (SimplicialComplex_init
        \<lparr>rows = [[0, 2, 3], [0, 1, 3], [2, 4, 5], [2, 3, 5]], columns = 3\<rparr>
        [[0, 0], [0, 1], [1, 0], [1, 1], [2, 0], [2, 1]] [4 \<mapsto> 0, 5 \<mapsto> 1])
   = Some (Inr (Inr [[0, 0, 0, 0], [0, 0, 0, 0], [0, 2, - 2, 0], [2, 0, 0, - 2]]))"
  by code_simp

text \<open>
  The periodic strip of six triangles, on a \<open>4 \<times> 2\<close> grid of vertices with \<open>6 \<mapsto> 0\<close> and
  \<open>7 \<mapsto> 1\<close>, has the stitched rows \<open>[4,0,1]\<close> and \<open>[4,5,1]\<close>, which are not ascending, but
  every face keeps one vertex order: the composition is the zero matrix.
\<close>

theorem exterior_exterior_zero_one_order_witness:
  "\<exists>cx up hi lo.
      SimplicialComplex_init
        \<lparr>rows = [[0, 2, 3], [0, 1, 3], [2, 4, 5], [2, 3, 5], [4, 6, 7], [4, 5, 7]],
         columns = 3\<rparr>
        [[0, 0], [0, 1], [1, 0], [1, 1], [2, 0], [2, 1], [3, 0], [3, 1]] [6 \<mapsto> 0, 7 \<mapsto> 1]
        = Some (Inr cx)
    \<and> getitem cx 2 = Inr up
    \<and> simplices up = [[0, 2, 3], [0, 1, 3], [2, 4, 5], [2, 3, 5], [4, 0, 1], [4, 5, 1]]
    \<and> getitem cx 1 = Inr hi \<and> getitem cx 0 = Inr lo
    \<and> (\<forall>r<fst (shape (exterior_derivative hi)). \<forall>c.
          csr_dot_entry (exterior_derivative hi) (exterior_derivative lo) r c = 0)"
proof -
  let ?arr = "\<lparr>rows = [[0, 2, 3], [0, 1, 3], [2, 4, 5], [2, 3, 5], [4, 6, 7], [4, 5, 7]],
               columns = 3\<rparr>"
  let ?verts = "[[0, 0], [0, 1], [1, 0], [1, 1], [2, 0], [2, 1], [3, 0], [3, 1 :: complex]]"
  let ?st = "[6 \<mapsto> 0, 7 \<mapsto> 1 :: nat]"
  let ?top = "[[0, 2, 3], [0, 1, 3], [2, 4, 5], [2, 3, 5], [4, 0, 1], [4, 5, 1 :: nat]]"
  have st: "map_option (map_sum id (\<lambda>cx. simplices (top_sk cx)))
              (SimplicialComplex_init ?arr ?verts ?st) = Some (Inr ?top)"
    by code_simp
  then obtain cx where h: "SimplicialComplex_init ?arr ?verts ?st = Some (Inr cx)"
    and top: "simplices (top_sk cx) = ?top"
    by (cases "SimplicialComplex_init ?arr ?verts ?st")
       (auto simp: map_sum_def split: sum.splits)
  have hyps: "rows ?arr \<noteq> []" "\<forall>s\<in>set (rows ?arr). length s = columns ?arr"
    "columns ?arr < 256"
    by simp_all
  have d: "0 < (1::nat)" "1 + 1 < columns ?arr" by simp_all
  have cd: "nat (complex_dimension cx) = 2" using init_fields(1) [OF h] by simp
  have up: "getitem cx (1 + 1) = Inr (skeleton.truncate (top_sk cx))"
    by (simp add: getitem_def cd Let_def)
  have cons: "one_vertex_order (simplices (skeleton.truncate (top_sk cx)))"
    unfolding truncate_sel top by code_simp
  from exterior_exterior_zero_one_order [OF h hyps d up cons]
  obtain hi lo where "getitem cx 1 = Inr hi" "getitem cx 0 = Inr lo"
    "\<forall>r<fst (shape (exterior_derivative hi)). \<forall>c.
          csr_dot_entry (exterior_derivative hi) (exterior_derivative lo) r c = 0"
    by auto
  moreover have "getitem cx 2 = Inr (skeleton.truncate (top_sk cx))"
    using up by (simp add: numeral_2_eq_2)
  moreover have "simplices (skeleton.truncate (top_sk cx)) = ?top"
    unfolding truncate_sel by (rule top)
  ultimately show ?thesis using h by blast
qed

theorem exterior_exterior_zero_ascending_witness:
  "(\<exists>cx hi lo.
      SimplicialComplex_init
        \<lparr>rows = [[0, 2, 3], [0, 1, 3], [2, 4, 5], [2, 3, 5]], columns = 3\<rparr>
        [[0, 0], [0, 1], [1, 0], [1, 1], [2, 0], [2, 1]] Map.empty = Some (Inr cx)
    \<and> getitem cx 1 = Inr hi \<and> getitem cx 0 = Inr lo
    \<and> (\<forall>r<fst (shape (exterior_derivative hi)). \<forall>c.
          csr_dot_entry (exterior_derivative hi) (exterior_derivative lo) r c = 0))
   \<and> map_option (map_sum id (exterior_composition 1))
       (SimplicialComplex_init
          \<lparr>rows = [[0, 2, 3], [0, 1, 3], [2, 4, 5], [2, 3, 5]], columns = 3\<rparr>
          [[0, 0], [0, 1], [1, 0], [1, 1], [2, 0], [2, 1]] Map.empty)
     = Some (Inr (Inr [[0, 0, 0, 0, 0, 0], [0, 0, 0, 0, 0, 0], [0, 0, 0, 0, 0, 0],
                       [0, 0, 0, 0, 0, 0]]))"
proof
  let ?arr = "\<lparr>rows = [[0, 2, 3], [0, 1, 3], [2, 4, 5], [2, 3, 5]], columns = 3\<rparr>"
  let ?verts = "[[0, 0], [0, 1], [1, 0], [1, 1], [2, 0], [2, 1 :: complex]]"
  have "\<exists>cx. SimplicialComplex_init ?arr ?verts Map.empty = Some (Inr cx)"
    by (simp add: SimplicialComplex_init_def ndarray_sort_def stitch_empty Let_def)
  then obtain cx where h: "SimplicialComplex_init ?arr ?verts Map.empty = Some (Inr cx)"
    by blast
  have hyps: "rows ?arr \<noteq> []" "\<forall>s\<in>set (rows ?arr). length s = columns ?arr"
    "columns ?arr < 256"
    by simp_all
  have asc: "\<forall>s\<in>set (simplices (top_sk cx)). sorted_wrt (<) s"
    by (rule init_unstitched_ascending [OF h]) simp
  have d: "0 < (1::nat)" "1 + 1 < columns ?arr" by simp_all
  from exterior_exterior_zero_ascending [OF h hyps asc d] h
  show "\<exists>cx hi lo.
      SimplicialComplex_init ?arr ?verts Map.empty = Some (Inr cx)
    \<and> getitem cx 1 = Inr hi \<and> getitem cx 0 = Inr lo
    \<and> (\<forall>r<fst (shape (exterior_derivative hi)). \<forall>c.
          csr_dot_entry (exterior_derivative hi) (exterior_derivative lo) r c = 0)"
    by auto
next
  show "map_option (map_sum id (exterior_composition 1))
       (SimplicialComplex_init
          \<lparr>rows = [[0, 2, 3], [0, 1, 3], [2, 4, 5], [2, 3, 5]], columns = 3\<rparr>
          [[0, 0], [0, 1], [1, 0], [1, 1], [2, 0], [2, 1]] Map.empty)
     = Some (Inr (Inr [[0, 0, 0, 0, 0, 0], [0, 0, 0, 0, 0, 0], [0, 0, 0, 0, 0, 0],
                       [0, 0, 0, 0, 0, 0]]))"
    by code_simp
qed

end
